theory Spec2Isabelle
  imports Main
begin

section \<open>Characters and the board\<close>

text \<open>
  A C string is modelled by the list of its characters before the terminating NUL.
  A \<^verbatim>\<open>char\<close> is read as a number with \<open>ord\<close>; the source only ever compares
  characters with ASCII letters and digits or subtracts \<^verbatim>\<open>'a'\<close>, \<^verbatim>\<open>'8'\<close> or
  \<^verbatim>\<open>'0'\<close> from a character and then checks the range \<open>0..7\<close>, so the signedness of
  \<^verbatim>\<open>char\<close> does not change any result.
\<close>

definition ord :: "char \<Rightarrow> int" where
  "ord ch = of_char ch"

definition isupper_c :: "char \<Rightarrow> bool" where
  "isupper_c ch = (65 \<le> ord ch \<and> ord ch \<le> 90)"

definition islower_c :: "char \<Rightarrow> bool" where
  "islower_c ch = (97 \<le> ord ch \<and> ord ch \<le> 122)"

definition toupper_c :: "char \<Rightarrow> char" where
  "toupper_c ch = (if islower_c ch then char_of (ord ch - 32) else ch)"

definition tolower_c :: "char \<Rightarrow> char" where
  "tolower_c ch = (if isupper_c ch then char_of (ord ch + 32) else ch)"

text \<open>
  \<^verbatim>\<open>char board[ROWS][COLS]\<close>: a list of 8 rows of 8 characters, row 0 is rank 8,
  column 0 is file a. Coordinates are C \<^verbatim>\<open>int\<close>s.
\<close>

type_synonym board = "char list list"

definition wf_board :: "board \<Rightarrow> bool" where
  "wf_board b = (length b = 8 \<and> (\<forall>row \<in> set b. length row = 8))"

definition in_range :: "int \<Rightarrow> int \<Rightarrow> bool" where
  "in_range r c = (0 \<le> r \<and> r < 8 \<and> 0 \<le> c \<and> c < 8)"

definition cell :: "board \<Rightarrow> int \<Rightarrow> int \<Rightarrow> char" where
  "cell b r c = b ! nat r ! nat c"

definition set_cell :: "board \<Rightarrow> int \<Rightarrow> int \<Rightarrow> char \<Rightarrow> board" where
  "set_cell b r c x = b[nat r := (b ! nat r)[nat c := x]]"

definition empty_board :: board where
  "empty_board = replicate 8 (replicate 8 (CHR ''.''))"

section \<open>Static evaluation\<close>

definition piece_value :: "char \<Rightarrow> int" where
  "piece_value piece =
    (if piece = CHR ''P'' then 100
     else if piece = CHR ''N'' then 320
     else if piece = CHR ''B'' then 330
     else if piece = CHR ''R'' then 500
     else if piece = CHR ''Q'' then 900
     else if piece = CHR ''K'' then 20000
     else if piece = CHR ''p'' then - 100
     else if piece = CHR ''n'' then - 320
     else if piece = CHR ''b'' then - 330
     else if piece = CHR ''r'' then - 500
     else if piece = CHR ''q'' then - 900
     else if piece = CHR ''k'' then - 20000
     else 0)"

definition centre_bonus_table :: "int list list" where
  "centre_bonus_table =
    [[0, 0, 0, 0, 0, 0, 0, 0],
     [0, 0, 0, 0, 0, 0, 0, 0],
     [0, 0, 1, 2, 2, 1, 0, 0],
     [0, 0, 2, 3, 3, 2, 0, 0],
     [0, 0, 2, 3, 3, 2, 0, 0],
     [0, 0, 1, 2, 2, 1, 0, 0],
     [0, 0, 0, 0, 0, 0, 0, 0],
     [0, 0, 0, 0, 0, 0, 0, 0]]"

definition centre_bonus :: "int \<Rightarrow> int \<Rightarrow> int" where
  "centre_bonus row col = centre_bonus_table ! nat row ! nat col"

text \<open>The body of the inner loop of \<^verbatim>\<open>evaluate\<close>: the score after visiting one square.\<close>

definition evaluate_square :: "board \<Rightarrow> int \<Rightarrow> int \<Rightarrow> int \<Rightarrow> int" where
  "evaluate_square b row col score =
    (let piece = cell b row col in
     if piece = CHR ''.'' then score
     else
       let s1 = score + piece_value piece;
           s2 = (if piece = CHR ''N'' \<or> piece = CHR ''B'' then s1 + centre_bonus row col * 5
                 else if piece = CHR ''n'' \<or> piece = CHR ''b'' then s1 - centre_bonus row col * 5
                 else s1)
       in (if piece = CHR ''P'' then s2 + (7 - row) * 5
           else if piece = CHR ''p'' then s2 - row * 5
           else s2))"

definition evaluate :: "board \<Rightarrow> int" where
  "evaluate b =
    foldl (\<lambda>score row. foldl (\<lambda>score col. evaluate_square b row col score) score [0..7])
      0 [0..7]"

subsection \<open>The evaluation as the specification words it\<close>

datatype kind = Pawn | Knight | Bishop | Rook | Queen | King

datatype colour = White | Black

definition decode_piece :: "char \<Rightarrow> (kind \<times> colour) option" where
  "decode_piece ch =
    (if ch = CHR ''P'' then Some (Pawn, White)
     else if ch = CHR ''N'' then Some (Knight, White)
     else if ch = CHR ''B'' then Some (Bishop, White)
     else if ch = CHR ''R'' then Some (Rook, White)
     else if ch = CHR ''Q'' then Some (Queen, White)
     else if ch = CHR ''K'' then Some (King, White)
     else if ch = CHR ''p'' then Some (Pawn, Black)
     else if ch = CHR ''n'' then Some (Knight, Black)
     else if ch = CHR ''b'' then Some (Bishop, Black)
     else if ch = CHR ''r'' then Some (Rook, Black)
     else if ch = CHR ''q'' then Some (Queen, Black)
     else if ch = CHR ''k'' then Some (King, Black)
     else None)"

fun material :: "kind \<Rightarrow> int" where
  "material Pawn = 100"
| "material Knight = 320"
| "material Bishop = 330"
| "material Rook = 500"
| "material Queen = 900"
| "material King = 20000"

fun signed :: "colour \<Rightarrow> int \<Rightarrow> int" where
  "signed White v = v"
| "signed Black v = - v"

fun is_minor :: "kind \<Rightarrow> bool" where
  "is_minor Knight = True"
| "is_minor Bishop = True"
| "is_minor k = False"

fun pawn_advance :: "colour \<Rightarrow> int \<Rightarrow> int" where
  "pawn_advance White row = 5 * (7 - row)"
| "pawn_advance Black row = - (5 * row)"

definition spec_square_score :: "board \<Rightarrow> int \<Rightarrow> int \<Rightarrow> int" where
  "spec_square_score b row col =
    (case decode_piece (cell b row col) of
       None \<Rightarrow> 0
     | Some (k, side) \<Rightarrow>
         signed side (material k)
         + (if is_minor k then signed side (5 * centre_bonus row col) else 0)
         + (if k = Pawn then pawn_advance side row else 0))"

definition spec_evaluate :: "board \<Rightarrow> int" where
  "spec_evaluate b = (\<Sum>row = 0..7. \<Sum>col = 0..7. spec_square_score b row col)"

section \<open>The piece locator\<close>

definition knight_dr :: "int list" where
  "knight_dr = [- 2, - 2, - 1, - 1, 1, 1, 2, 2]"

definition knight_dc :: "int list" where
  "knight_dc = [- 1, 1, - 2, 2, - 2, 2, - 1, 1]"

definition rdr :: "int list" where
  "rdr = [- 1, 1, 0, 0]"

definition rdc :: "int list" where
  "rdc = [0, 0, - 1, 1]"

definition qdr :: "int list" where
  "qdr = [- 1, - 1, - 1, 0, 0, 1, 1, 1]"

definition qdc :: "int list" where
  "qdc = [- 1, 0, 1, - 1, 1, - 1, 0, 1]"

text \<open>
  The \<^verbatim>\<open>while\<close> loop shared by bishop, rook and queen: walk from \<open>(sr, sc)\<close> in steps
  of \<open>(dr, dc)\<close> while on the board; reaching the destination succeeds, an occupied square
  stops the walk. The direction tables never hold \<open>(0, 0)\<close>; the test \<open>dr \<noteq> 0 \<or> dc \<noteq> 0\<close>
  only makes the recursion total.
\<close>

function slide :: "board \<Rightarrow> int \<Rightarrow> int \<Rightarrow> int \<Rightarrow> int \<Rightarrow> int \<Rightarrow> int \<Rightarrow> bool" where
  "slide b sr sc dr dc dest_row dest_col =
    (if 0 \<le> sr \<and> sr < 8 \<and> 0 \<le> sc \<and> sc < 8 \<and> (dr \<noteq> 0 \<or> dc \<noteq> 0) then
       (if sr = dest_row \<and> sc = dest_col then True
        else if cell b sr sc \<noteq> CHR ''.'' then False
        else slide b (sr + dr) (sc + dc) dr dc dest_row dest_col)
     else False)"
  by pat_completeness auto
termination
  by (relation "measure (\<lambda>(b, sr, sc, dr, dc, dest_row, dest_col).
        if 0 < dr then nat (8 - sr) else if dr < 0 then nat (sr + 1)
        else if 0 < dc then nat (8 - sc) else nat (sc + 1))") auto

definition pawn_reach :: "board \<Rightarrow> char \<Rightarrow> int \<Rightarrow> int \<Rightarrow> int \<Rightarrow> int \<Rightarrow> bool" where
  "pawn_reach b piece r c dest_row dest_col =
    (if isupper_c piece then
       (c = dest_col \<and> cell b dest_row dest_col = CHR ''.'' \<and>
          (r - 1 = dest_row \<or> (r = 6 \<and> dest_row = 4 \<and> cell b 5 c = CHR ''.'')))
       \<or> (r - 1 = dest_row \<and> (c - 1 = dest_col \<or> c + 1 = dest_col))
     else
       (c = dest_col \<and> cell b dest_row dest_col = CHR ''.'' \<and>
          (r + 1 = dest_row \<or> (r = 1 \<and> dest_row = 3 \<and> cell b 2 c = CHR ''.'')))
       \<or> (r + 1 = dest_row \<and> (c - 1 = dest_col \<or> c + 1 = dest_col)))"

definition knight_reach :: "int \<Rightarrow> int \<Rightarrow> int \<Rightarrow> int \<Rightarrow> bool" where
  "knight_reach r c dest_row dest_col =
    list_ex (\<lambda>i. r + knight_dr ! i = dest_row \<and> c + knight_dc ! i = dest_col) [0..<8]"

definition bishop_reach :: "board \<Rightarrow> int \<Rightarrow> int \<Rightarrow> int \<Rightarrow> int \<Rightarrow> bool" where
  "bishop_reach b r c dest_row dest_col =
    list_ex (\<lambda>dr. list_ex (\<lambda>dc. slide b (r + dr) (c + dc) dr dc dest_row dest_col) [- 1, 1])
      [- 1, 1]"

definition rook_reach :: "board \<Rightarrow> int \<Rightarrow> int \<Rightarrow> int \<Rightarrow> int \<Rightarrow> bool" where
  "rook_reach b r c dest_row dest_col =
    list_ex (\<lambda>i. slide b (r + rdr ! i) (c + rdc ! i) (rdr ! i) (rdc ! i) dest_row dest_col)
      [0..<4]"

definition queen_reach :: "board \<Rightarrow> int \<Rightarrow> int \<Rightarrow> int \<Rightarrow> int \<Rightarrow> bool" where
  "queen_reach b r c dest_row dest_col =
    list_ex (\<lambda>i. slide b (r + qdr ! i) (c + qdc ! i) (qdr ! i) (qdc ! i) dest_row dest_col)
      [0..<8]"

definition king_reach :: "int \<Rightarrow> int \<Rightarrow> int \<Rightarrow> int \<Rightarrow> bool" where
  "king_reach r c dest_row dest_col = (\<bar>r - dest_row\<bar> \<le> 1 \<and> \<bar>c - dest_col\<bar> \<le> 1)"

text \<open>The \<^verbatim>\<open>switch (toupper(piece))\<close>: can the piece on \<open>(r, c)\<close> reach the destination?\<close>

definition reaches :: "board \<Rightarrow> char \<Rightarrow> int \<Rightarrow> int \<Rightarrow> int \<Rightarrow> int \<Rightarrow> bool" where
  "reaches b piece r c dest_row dest_col =
    (let u = toupper_c piece in
     if u = CHR ''P'' then pawn_reach b piece r c dest_row dest_col
     else if u = CHR ''N'' then knight_reach r c dest_row dest_col
     else if u = CHR ''B'' then bishop_reach b r c dest_row dest_col
     else if u = CHR ''R'' then rook_reach b r c dest_row dest_col
     else if u = CHR ''Q'' then queen_reach b r c dest_row dest_col
     else if u = CHR ''K'' then king_reach r c dest_row dest_col
     else False)"

text \<open>One iteration of the double loop: the square is accepted when no \<^verbatim>\<open>continue\<close> is
  taken and the \<^verbatim>\<open>switch\<close> jumps to \<^verbatim>\<open>found\<close>.\<close>

definition candidate ::
  "board \<Rightarrow> char \<Rightarrow> int \<Rightarrow> int \<Rightarrow> int \<Rightarrow> int \<Rightarrow> int \<Rightarrow> int \<Rightarrow> bool" where
  "candidate b piece dest_row dest_col src_row_hint src_col_hint r c =
    (if cell b r c \<noteq> piece then False
     else if 0 \<le> src_row_hint \<and> r \<noteq> src_row_hint then False
     else if 0 \<le> src_col_hint \<and> c \<noteq> src_col_hint then False
     else reaches b piece r c dest_row dest_col)"

fun first_row :: "(int \<Rightarrow> int option) \<Rightarrow> int list \<Rightarrow> (int \<times> int) option" where
  "first_row f [] = None"
| "first_row f (r # rs) = (case f r of Some c \<Rightarrow> Some (r, c) | None \<Rightarrow> first_row f rs)"

text \<open>\<^verbatim>\<open>find_piece\<close>: \<open>None\<close> is the return value 0, \<open>Some (r, c)\<close> is the return value 1
  with \<^verbatim>\<open>*out_row = r\<close>, \<^verbatim>\<open>*out_col = c\<close>.\<close>

definition find_piece ::
  "board \<Rightarrow> char \<Rightarrow> int \<Rightarrow> int \<Rightarrow> int \<Rightarrow> int \<Rightarrow> (int \<times> int) option" where
  "find_piece b piece dest_row dest_col src_row_hint src_col_hint =
    first_row
      (\<lambda>r. find (candidate b piece dest_row dest_col src_row_hint src_col_hint r) [0..7])
      [0..7]"

section \<open>The move interpreter\<close>

definition is_kingside :: "string \<Rightarrow> bool" where
  "is_kingside move = (move = ''O-O'' \<or> move = ''O-O+'' \<or> move = ''O-O#'')"

definition is_queenside :: "string \<Rightarrow> bool" where
  "is_queenside move = (move = ''O-O-O'' \<or> move = ''O-O-O+'' \<or> move = ''O-O-O#'')"

definition castle_kingside :: "board \<Rightarrow> char \<Rightarrow> board" where
  "castle_kingside b side =
    (let row = (if side = CHR ''w'' then 7 else 0);
         b1 = set_cell b row 4 (CHR ''.'');
         b2 = set_cell b1 row 7 (CHR ''.'');
         b3 = set_cell b2 row 6 (if side = CHR ''w'' then CHR ''K'' else CHR ''k'')
     in set_cell b3 row 5 (if side = CHR ''w'' then CHR ''R'' else CHR ''r''))"

definition castle_queenside :: "board \<Rightarrow> char \<Rightarrow> board" where
  "castle_queenside b side =
    (let row = (if side = CHR ''w'' then 7 else 0);
         b1 = set_cell b row 4 (CHR ''.'');
         b2 = set_cell b1 row 0 (CHR ''.'');
         b3 = set_cell b2 row 2 (if side = CHR ''w'' then CHR ''K'' else CHR ''k'')
     in set_cell b3 row 3 (if side = CHR ''w'' then CHR ''R'' else CHR ''r''))"

text \<open>\<^verbatim>\<open>buf\<close> after \<^verbatim>\<open>strncpy(buf, move, MAX_MOVE_LEN - 1)\<close> and the loop that cuts trailing
  \<^verbatim>\<open>'+'\<close> and \<^verbatim>\<open>'#'\<close>.\<close>

definition strip_suffix :: "string \<Rightarrow> string" where
  "strip_suffix move =
    rev (dropWhile (\<lambda>ch. ch = CHR ''+'' \<or> ch = CHR ''#'') (rev (take 15 move)))"

text \<open>The promotion check: \<^verbatim>\<open>promote_to\<close> (NUL when there is none) and the shortened
  \<^verbatim>\<open>buf\<close>.\<close>

definition split_promotion :: "string \<Rightarrow> char \<times> string" where
  "split_promotion buf =
    (let len = length buf in
     if 4 \<le> len \<and> buf ! (len - 2) = CHR ''=''
     then (buf ! (len - 1), take (len - 2) buf)
     else (CHR 0x00, buf))"

definition named_piece :: "string \<Rightarrow> bool" where
  "named_piece buf =
    (case buf of
       [] \<Rightarrow> False
     | p # _ \<Rightarrow> isupper_c p \<and> p \<noteq> CHR ''O'' \<and>
         (p = CHR ''N'' \<or> p = CHR ''B'' \<or> p = CHR ''R'' \<or> p = CHR ''Q'' \<or> p = CHR ''K''))"

definition hint_step :: "int \<times> int \<Rightarrow> char \<Rightarrow> int \<times> int" where
  "hint_step h mid =
    (case h of (src_row_hint, src_col_hint) \<Rightarrow>
      if mid = CHR ''x'' then (src_row_hint, src_col_hint)
      else if 97 \<le> ord mid \<and> ord mid \<le> 104 then (src_row_hint, ord mid - 97)
      else if 49 \<le> ord mid \<and> ord mid \<le> 56 then (56 - ord mid, src_col_hint)
      else (src_row_hint, src_col_hint))"

record move_intent =
  piece :: char
  promote_to :: char
  dest_row :: int
  dest_col :: int
  src_row_hint :: int
  src_col_hint :: int

datatype move_error = TooShort | BadDestination

text \<open>Everything \<^verbatim>\<open>apply_move\<close> reads off a non-castling token before it looks at the
  board. \<open>Inl\<close> is one of the two early \<^verbatim>\<open>return 0\<close>.\<close>

definition parse_move :: "string \<Rightarrow> char \<Rightarrow> move_error + move_intent" where
  "parse_move move side =
    (case split_promotion (strip_suffix move) of (promo, buf) \<Rightarrow>
      let named = named_piece buf;
          pc = (if named then (if side = CHR ''w'' then hd buf else tolower_c (hd buf))
                else (if side = CHR ''w'' then CHR ''P'' else CHR ''p''));
          off = (if named then 1 else 0);
          len = int (length buf) - int off
      in if len < 2 then Inl TooShort
         else
           let dc = ord (buf ! (length buf - 2)) - 97;
               dr = 56 - ord (buf ! (length buf - 1))
           in if dr < 0 \<or> 8 \<le> dr \<or> dc < 0 \<or> 8 \<le> dc then Inl BadDestination
              else
                (case foldl hint_step (- 1, - 1) (take (length buf - 2 - off) (drop off buf)) of
                   (rh, ch) \<Rightarrow>
                     Inr \<lparr>piece = pc, promote_to = promo, dest_row = dr, dest_col = dc,
                          src_row_hint = rh, src_col_hint = ch\<rparr>))"

text \<open>The writes of a located move: en passant, source, destination.\<close>

definition perform_move :: "board \<Rightarrow> move_intent \<Rightarrow> char \<Rightarrow> int \<Rightarrow> int \<Rightarrow> board" where
  "perform_move b m side src_row src_col =
    (let b1 = (if toupper_c (piece m) = CHR ''P'' \<and> src_col \<noteq> dest_col m \<and>
                  cell b (dest_row m) (dest_col m) = CHR ''.''
               then set_cell b src_row (dest_col m) (CHR ''.'') else b);
         b2 = set_cell b1 src_row src_col (CHR ''.'')
     in if promote_to m \<noteq> CHR 0x00
        then set_cell b2 (dest_row m) (dest_col m)
               (if side = CHR ''w'' then toupper_c (promote_to m) else tolower_c (promote_to m))
        else set_cell b2 (dest_row m) (dest_col m) (piece m))"

text \<open>\<^verbatim>\<open>apply_move\<close>: the return value and the board as the call leaves it.\<close>

definition apply_move :: "board \<Rightarrow> string \<Rightarrow> char \<Rightarrow> bool \<times> board" where
  "apply_move b move side =
    (if is_kingside move then (True, castle_kingside b side)
     else if is_queenside move then (True, castle_queenside b side)
     else
       (case parse_move move side of
          Inl e \<Rightarrow> (False, b)
        | Inr m \<Rightarrow>
            (case find_piece b (piece m) (dest_row m) (dest_col m)
                    (src_row_hint m) (src_col_hint m) of
               None \<Rightarrow> (False, b)
             | Some (src_row, src_col) \<Rightarrow> (True, perform_move b m side src_row src_col))))"

section \<open>The position decoder\<close>

text \<open>The placement loop of \<^verbatim>\<open>parse_fen\<close>: the board and the unread rest of the string
  (empty, or starting at the first space). The counters \<^verbatim>\<open>row\<close> and \<^verbatim>\<open>col\<close> are C
  \<^verbatim>\<open>int\<close>s that grow by at most 8 per character, so they stay far below \<open>2 ^ 31\<close> on any
  string a process can be given; they are modelled as unbounded integers.\<close>

fun fen_placement :: "string \<Rightarrow> int \<Rightarrow> int \<Rightarrow> board \<Rightarrow> board \<times> string" where
  "fen_placement [] row col b = (b, [])"
| "fen_placement (p # ps) row col b =
    (if p = CHR '' '' then (b, p # ps)
     else if p = CHR ''/'' then fen_placement ps (row + 1) 0 b
     else if 49 \<le> ord p \<and> ord p \<le> 56 then fen_placement ps row (col + (ord p - 48)) b
     else fen_placement ps row (col + 1)
            (if row < 8 \<and> col < 8 then set_cell b row col p else b))"

text \<open>\<^verbatim>\<open>parse_fen\<close>: the return value, the board and \<^verbatim>\<open>*side\<close> (the terminating NUL
  when the string ends there).\<close>

definition parse_fen :: "string \<Rightarrow> bool \<times> board \<times> char" where
  "parse_fen fen =
    (case fen_placement fen 0 0 empty_board of (b, rest) \<Rightarrow>
      let rest' = (case rest of [] \<Rightarrow> [] | p # ps \<Rightarrow> if p = CHR '' '' then ps else p # ps);
          side = (case rest' of [] \<Rightarrow> CHR 0x00 | p # _ \<Rightarrow> p)
      in (True, b, side))"

subsection \<open>The placement field as the specification enumerates it\<close>

text \<open>
  The direct enumeration: cut the placement field (everything before the first space) into
  ranks at every \<^verbatim>\<open>/\<close>; rank number \<open>i\<close> (from 0) lies on row \<open>i\<close>; within a rank the file
  starts at 0, a digit 1 to 8 skips that many files, and any other character is a piece on
  the current file.
\<close>

definition placement_field :: "string \<Rightarrow> string" where
  "placement_field s = takeWhile (\<lambda>ch. ch \<noteq> CHR '' '') s"

definition is_skip :: "char \<Rightarrow> bool" where
  "is_skip ch = (49 \<le> ord ch \<and> ord ch \<le> 56)"

fun split_ranks :: "string \<Rightarrow> string list" where
  "split_ranks [] = [[]]"
| "split_ranks (p # ps) =
    (if p = CHR ''/'' then [] # split_ranks ps
     else (case split_ranks ps of [] \<Rightarrow> [[p]] | rk # rks \<Rightarrow> (p # rk) # rks))"

fun rank_triples :: "int \<Rightarrow> int \<Rightarrow> string \<Rightarrow> ((int \<times> int) \<times> char) list" where
  "rank_triples row col [] = []"
| "rank_triples row col (p # ps) =
    (if is_skip p then rank_triples row (col + (ord p - 48)) ps
     else ((row, col), p) # rank_triples row (col + 1) ps)"

fun ranks_triples :: "int \<Rightarrow> string list \<Rightarrow> ((int \<times> int) \<times> char) list" where
  "ranks_triples row [] = []"
| "ranks_triples row (rk # rks) = rank_triples row 0 rk @ ranks_triples (row + 1) rks"

definition fen_triples :: "string \<Rightarrow> ((int \<times> int) \<times> char) list" where
  "fen_triples s = ranks_triples 0 (split_ranks (placement_field s))"

fun rank_width :: "string \<Rightarrow> int" where
  "rank_width [] = 0"
| "rank_width (p # ps) = (if is_skip p then ord p - 48 else 1) + rank_width ps"

text \<open>A valid placement field: 8 ranks, each of width 8, made of digits 1 to 8 and the
  twelve piece letters.\<close>

definition valid_placement :: "string \<Rightarrow> bool" where
  "valid_placement s =
    (let ranks = split_ranks (placement_field s) in
     length ranks = 8 \<and>
     list_all (\<lambda>rk. rank_width rk = 8 \<and>
                    list_all (\<lambda>ch. is_skip ch \<or> decode_piece ch \<noteq> None) rk) ranks)"

text \<open>Re-scanning a board: the occupied squares with their characters, in row-major
  order.\<close>

definition scan_board :: "board \<Rightarrow> ((int \<times> int) \<times> char) list" where
  "scan_board b =
    concat (map (\<lambda>r. map (\<lambda>c. ((r, c), cell b r c))
                        (filter (\<lambda>c. cell b r c \<noteq> CHR ''.'') [0..7])) [0..7])"

text \<open>The enumeration started in the middle of a rank, at \<open>(row, col)\<close>.\<close>

definition triples_from :: "int \<Rightarrow> int \<Rightarrow> string \<Rightarrow> ((int \<times> int) \<times> char) list" where
  "triples_from row col s =
    (case split_ranks s of
       [] \<Rightarrow> []
     | rk # rks \<Rightarrow> rank_triples row col rk @ ranks_triples (row + 1) rks)"

section \<open>The move selector\<close>

text \<open>\<^verbatim>\<open>strtok\<close> with the delimiter \<^verbatim>\<open>" "\<close>, called until it returns \<^verbatim>\<open>NULL\<close>.\<close>

function strtok_all :: "string \<Rightarrow> string list" where
  "strtok_all s =
    (let s' = dropWhile (\<lambda>ch. ch = CHR '' '') s in
     if s' = [] then []
     else takeWhile (\<lambda>ch. ch \<noteq> CHR '' '') s' # strtok_all (dropWhile (\<lambda>ch. ch \<noteq> CHR '' '') s'))"
  by pat_completeness auto
termination
proof (relation "measure length")
  show "wf (measure length)" by simp
next
  fix s s' :: string
  assume s': "s' = dropWhile (\<lambda>ch. ch = CHR '' '') s" and ne: "s' \<noteq> []"
  have x: "hd s' \<noteq> CHR '' ''"
    using hd_dropWhile [of "\<lambda>ch. ch = CHR '' ''" s] s' ne by simp
  have eq: "s' = hd s' # tl s'" using ne by simp
  have "dropWhile (\<lambda>ch. ch \<noteq> CHR '' '') s' = dropWhile (\<lambda>ch. ch \<noteq> CHR '' '') (tl s')"
    using x by (subst eq) simp
  then have "length (dropWhile (\<lambda>ch. ch \<noteq> CHR '' '') s') \<le> length (tl s')"
    using length_dropWhile_le [of "\<lambda>ch. ch \<noteq> CHR '' ''" "tl s'"] by simp
  also have "\<dots> < length s'" using ne by simp
  also have "\<dots> \<le> length s" using s' by (simp add: length_dropWhile_le)
  finally show "(dropWhile (\<lambda>ch. ch \<noteq> CHR '' '') s', s) \<in> measure length" by simp
qed

text \<open>\<^verbatim>\<open>move_list\<close>: at most 256 tokens of at most 15 characters, from the first 4095
  characters of \<^verbatim>\<open>moves\<close>.\<close>

definition move_list :: "string \<Rightarrow> string list" where
  "move_list moves = map (take 15) (take 256 (strtok_all (take 4095 moves)))"

fun choose_loop :: "board \<Rightarrow> char \<Rightarrow> string list \<Rightarrow> nat \<Rightarrow> nat \<Rightarrow> int \<Rightarrow> nat" where
  "choose_loop board side [] i best_idx best_score = best_idx"
| "choose_loop board side (m # ms) i best_idx best_score =
    (case apply_move board m side of (ok, trial) \<Rightarrow>
      if \<not> ok then choose_loop board side ms (i + 1) best_idx best_score
      else
        let score = evaluate trial in
        if side = CHR ''w'' then
          (if score > best_score then choose_loop board side ms (i + 1) i score
           else choose_loop board side ms (i + 1) best_idx best_score)
        else
          (if score < best_score then choose_loop board side ms (i + 1) i score
           else choose_loop board side ms (i + 1) best_idx best_score))"

definition choose_move :: "string \<Rightarrow> string \<Rightarrow> int \<Rightarrow> nat" where
  "choose_move fen moves timeout =
    (case parse_fen fen of (ok, board, side) \<Rightarrow>
      let ml = move_list moves in
      if length ml = 0 then 0
      else choose_loop board side ml 0 0
             (if side = CHR ''w'' then - 9999999 else 9999999))"

text \<open>The comparison of the selection loop: is score \<open>x\<close> strictly better than \<open>y\<close> for
  the side to move (\<^verbatim>\<open>>\<close> for \<^verbatim>\<open>'w'\<close>, \<^verbatim>\<open><\<close> otherwise)?\<close>

definition better :: "char \<Rightarrow> int \<Rightarrow> int \<Rightarrow> bool" where
  "better side x y = (if side = CHR ''w'' then x > y else x < y)"

section \<open>Facts about the evaluation\<close>

lemma upto_0_7: "[0..7::int] = [0, 1, 2, 3, 4, 5, 6, 7]"
  by code_simp

lemma foldl_plus_sum_list:
  "foldl (\<lambda>(s::int) x. s + f x) a xs = a + sum_list (map f xs)"
  by (induction xs arbitrary: a) simp_all

lemma evaluate_square_additive:
  "evaluate_square b row col score = score + spec_square_score b row col"
  by (simp add: evaluate_square_def spec_square_score_def decode_piece_def piece_value_def Let_def)

lemma evaluate_sum_list:
  "evaluate b = sum_list (map (\<lambda>row. sum_list (map (spec_square_score b row) [0..7])) [0..7])"
  by (simp add: evaluate_def evaluate_square_additive foldl_plus_sum_list)

lemma sum_list_upto_sum: "sum_list (map f [i..j]) = (\<Sum>x = i..j. f x)"
  by (simp add: sum_list_distinct_conv_sum_set)

lemma evaluate_refines_spec: "evaluate b = spec_evaluate b"
  by (simp only: evaluate_sum_list spec_evaluate_def sum_list_upto_sum)

lemma centre_bonus_values:
  "centre_bonus 3 3 = 3" "centre_bonus 3 4 = 3" "centre_bonus 4 3 = 3" "centre_bonus 4 4 = 3"
  by (simp_all add: centre_bonus_def centre_bonus_table_def)

lemma centre_bonus_all:
  "list_all (\<lambda>r. list_all (\<lambda>c.
       0 \<le> centre_bonus r c \<and> centre_bonus r c \<le> 3 \<and>
       ((r < 2 \<or> 5 < r \<or> c < 2 \<or> 5 < c) \<longrightarrow> centre_bonus r c = 0) \<and>
       (centre_bonus r c = 3 \<longleftrightarrow> (r = 3 \<or> r = 4) \<and> (c = 3 \<or> c = 4))) [0..7]) [0..7]"
  by code_simp

lemma in_range_upto: "in_range r c \<longleftrightarrow> r \<in> set [0..7] \<and> c \<in> set [0..7]"
  unfolding in_range_def by auto

lemma centre_bonus_shape:
  assumes "in_range r c"
  shows "0 \<le> centre_bonus r c \<and> centre_bonus r c \<le> 3 \<and>
     ((r < 2 \<or> 5 < r \<or> c < 2 \<or> 5 < c) \<longrightarrow> centre_bonus r c = 0) \<and>
     (centre_bonus r c = 3 \<longleftrightarrow> (r = 3 \<or> r = 4) \<and> (c = 3 \<or> c = 4))"
  using centre_bonus_all assms unfolding in_range_upto list_all_iff by blast

section \<open>Claims about the static evaluator\<close>

text \<open>
  C3. For every board, \<open>evaluate\<close> is the sum over the 64 squares of the square's score as
  the specification words it: an empty square (or a character that is no piece letter)
  counts 0; a piece counts its material value (Pawn 100, Knight 320, Bishop 330, Rook 500,
  Queen 900, King 20000), added for White and subtracted for Black; a knight or bishop also
  counts 5 times the centre-bonus entry of its square, with the same sign; a White pawn
  also counts \<open>5 * (7 - row)\<close> and a Black pawn \<open>- 5 * row\<close>. The centre-bonus table lies
  between 0 and 3, is 0 on the outer two ranks and files, and is 3 exactly on the four
  centre squares.
\<close>

theorem evaluate_sums_material_centre_advance:
  "evaluate b = (\<Sum>row = 0..7. \<Sum>col = 0..7. spec_square_score b row col) \<and>
   (\<forall>r c. in_range r c \<longrightarrow>
      0 \<le> centre_bonus r c \<and> centre_bonus r c \<le> 3 \<and>
      ((r < 2 \<or> 5 < r \<or> c < 2 \<or> 5 < c) \<longrightarrow> centre_bonus r c = 0) \<and>
      (centre_bonus r c = 3 \<longleftrightarrow> (r = 3 \<or> r = 4) \<and> (c = 3 \<or> c = 4)))"
  using evaluate_refines_spec [of b] centre_bonus_shape
  unfolding spec_evaluate_def by blast

theorem evaluate_sums_material_centre_advance_witness:
  "in_range 4 3 \<and> centre_bonus 4 3 = 3 \<and>
   (\<Sum>row = 0..7. \<Sum>col = 0..7. spec_square_score
      [''........'', ''p.......'', ''........'', ''........'',
       ''...N....'', ''........'', ''........'', ''........''] row col) = 230"
proof -
  have r: "in_range 4 3" by (simp add: in_range_def)
  have e: "evaluate
      [''........'', ''p.......'', ''........'', ''........'',
       ''...N....'', ''........'', ''........'', ''........''] = 230"
    by code_simp
  show ?thesis
    using evaluate_sums_material_centre_advance
      [of "[''........'', ''p.......'', ''........'', ''........'',
            ''...N....'', ''........'', ''........'', ''........'']"] r e
    by auto
qed

section \<open>Facts about board updates\<close>

lemma wf_board_set_cell: "wf_board b \<Longrightarrow> wf_board (set_cell b r c x)"
proof -
  assume wf: "wf_board b"
  show ?thesis
  proof (cases "nat r < length b")
    case True
    then have "length (b ! nat r) = 8" using wf unfolding wf_board_def by simp
    moreover have "set (b[nat r := (b ! nat r)[nat c := x]])
        \<subseteq> insert ((b ! nat r)[nat c := x]) (set b)"
      by (rule set_update_subset_insert)
    ultimately show ?thesis using wf unfolding wf_board_def set_cell_def by auto
  next
    case False
    then have "b[nat r := (b ! nat r)[nat c := x]] = b" by (intro list_update_beyond) simp
    then show ?thesis using wf unfolding set_cell_def by simp
  qed
qed

lemma in_range_back_rank:
  "in_range 7 0" "in_range 7 2" "in_range 7 3" "in_range 7 4" "in_range 7 5" "in_range 7 6"
  "in_range 7 7" "in_range 0 0" "in_range 0 2" "in_range 0 3" "in_range 0 4" "in_range 0 5"
  "in_range 0 6" "in_range 0 7"
  by (simp_all add: in_range_def)

lemma cell_set_cell:
  assumes "wf_board b" "in_range r c" "in_range r' c'"
  shows "cell (set_cell b r c x) r' c' = (if r' = r \<and> c' = c then x else cell b r' c')"
proof -
  have len: "length b = 8" and row: "length (b ! nat r) = 8"
    using assms(1,2) unfolding wf_board_def in_range_def by auto
  have "nat r < 8" "nat c < 8" "nat r' < 8" "nat c' < 8"
    using assms(2,3) unfolding in_range_def by auto
  moreover have "nat r' = nat r \<longleftrightarrow> r' = r" "nat c' = nat c \<longleftrightarrow> c' = c"
    using assms(2,3) unfolding in_range_def by auto
  ultimately show ?thesis
    unfolding cell_def set_cell_def using len row
    by (auto simp add: nth_list_update)
qed

lemma board_eqI:
  assumes "wf_board b" "wf_board b'" "\<And>r c. in_range r c \<Longrightarrow> cell b r c = cell b' r c"
  shows "b = b'"
proof (rule nth_equalityI)
  show "length b = length b'" using assms(1,2) unfolding wf_board_def by simp
next
  fix i assume i: "i < length b"
  then have i8: "i < 8" using assms(1) unfolding wf_board_def by simp
  have li: "length (b ! i) = 8" "length (b' ! i) = 8"
    using assms(1,2) i8 unfolding wf_board_def by auto
  show "b ! i = b' ! i"
  proof (rule nth_equalityI)
    show "length (b ! i) = length (b' ! i)" using li by simp
  next
    fix j assume "j < length (b ! i)"
    then have j8: "j < 8" using li by simp
    have "in_range (int i) (int j)" using i8 j8 unfolding in_range_def by simp
    from assms(3) [OF this] show "b ! i ! j = b' ! i ! j" unfolding cell_def by simp
  qed
qed

lemma wf_empty_board: "wf_board empty_board"
  by (simp add: wf_board_def empty_board_def)

section \<open>Claims about the move interpreter\<close>

text \<open>
  C10. For every 8 by 8 board and every side, \<open>apply_move\<close> on a castling token
  (\<^verbatim>\<open>O-O\<close> or \<^verbatim>\<open>O-O-O\<close>, optionally followed by \<^verbatim>\<open>+\<close> or \<^verbatim>\<open>#\<close>) returns
  success whatever the board holds. On the side's back rank (row 7 for \<^verbatim>\<open>'w'\<close>, row 0 for
  any other side character) it leaves files e and h (kingside) or e and a (queenside) empty
  and writes the side's king and rook to files g and f (kingside) or c and d (queenside);
  every other cell keeps its content. Nothing is required of the board, so this holds on a
  board without any king or rook.
\<close>

theorem castling_writes_fixed_squares:
  assumes "wf_board b"
  shows "(m \<in> {''O-O'', ''O-O+'', ''O-O#''} \<longrightarrow>
           fst (apply_move b m side) \<and> wf_board (snd (apply_move b m side)) \<and>
           (\<forall>r c. in_range r c \<longrightarrow>
              cell (snd (apply_move b m side)) r c =
                (if r = (if side = CHR ''w'' then 7 else 0) \<and> (c = 4 \<or> c = 7) then CHR ''.''
                 else if r = (if side = CHR ''w'' then 7 else 0) \<and> c = 6
                   then (if side = CHR ''w'' then CHR ''K'' else CHR ''k'')
                 else if r = (if side = CHR ''w'' then 7 else 0) \<and> c = 5
                   then (if side = CHR ''w'' then CHR ''R'' else CHR ''r'')
                 else cell b r c))) \<and>
         (m \<in> {''O-O-O'', ''O-O-O+'', ''O-O-O#''} \<longrightarrow>
           fst (apply_move b m side) \<and> wf_board (snd (apply_move b m side)) \<and>
           (\<forall>r c. in_range r c \<longrightarrow>
              cell (snd (apply_move b m side)) r c =
                (if r = (if side = CHR ''w'' then 7 else 0) \<and> (c = 4 \<or> c = 0) then CHR ''.''
                 else if r = (if side = CHR ''w'' then 7 else 0) \<and> c = 2
                   then (if side = CHR ''w'' then CHR ''K'' else CHR ''k'')
                 else if r = (if side = CHR ''w'' then 7 else 0) \<and> c = 3
                   then (if side = CHR ''w'' then CHR ''R'' else CHR ''r'')
                 else cell b r c)))"
proof (intro conjI impI)
  assume k: "m \<in> {''O-O'', ''O-O+'', ''O-O#''}"
  then have am: "\<And>s. apply_move b m s = (True, castle_kingside b s)"
    unfolding apply_move_def is_kingside_def by auto
  show "fst (apply_move b m side)" using am by simp
  show "wf_board (snd (apply_move b m side))"
    using am assms by (simp add: castle_kingside_def Let_def wf_board_set_cell)
  show "\<forall>r c. in_range r c \<longrightarrow>
              cell (snd (apply_move b m side)) r c =
                (if r = (if side = CHR ''w'' then 7 else 0) \<and> (c = 4 \<or> c = 7) then CHR ''.''
                 else if r = (if side = CHR ''w'' then 7 else 0) \<and> c = 6
                   then (if side = CHR ''w'' then CHR ''K'' else CHR ''k'')
                 else if r = (if side = CHR ''w'' then 7 else 0) \<and> c = 5
                   then (if side = CHR ''w'' then CHR ''R'' else CHR ''r'')
                 else cell b r c)"
  proof (intro allI impI)
    fix r c assume rc: "in_range r c"
    show "cell (snd (apply_move b m side)) r c =
                (if r = (if side = CHR ''w'' then 7 else 0) \<and> (c = 4 \<or> c = 7) then CHR ''.''
                 else if r = (if side = CHR ''w'' then 7 else 0) \<and> c = 6
                   then (if side = CHR ''w'' then CHR ''K'' else CHR ''k'')
                 else if r = (if side = CHR ''w'' then 7 else 0) \<and> c = 5
                   then (if side = CHR ''w'' then CHR ''R'' else CHR ''r'')
                 else cell b r c)"
      using rc assms
      by (cases "side = CHR ''w''")
        (auto simp add: am castle_kingside_def cell_set_cell wf_board_set_cell in_range_back_rank)
  qed
next
  assume q: "m \<in> {''O-O-O'', ''O-O-O+'', ''O-O-O#''}"
  then have am: "\<And>s. apply_move b m s = (True, castle_queenside b s)"
    unfolding apply_move_def is_kingside_def is_queenside_def by auto
  show "fst (apply_move b m side)" using am by simp
  show "wf_board (snd (apply_move b m side))"
    using am assms by (simp add: castle_queenside_def Let_def wf_board_set_cell)
  show "\<forall>r c. in_range r c \<longrightarrow>
              cell (snd (apply_move b m side)) r c =
                (if r = (if side = CHR ''w'' then 7 else 0) \<and> (c = 4 \<or> c = 0) then CHR ''.''
                 else if r = (if side = CHR ''w'' then 7 else 0) \<and> c = 2
                   then (if side = CHR ''w'' then CHR ''K'' else CHR ''k'')
                 else if r = (if side = CHR ''w'' then 7 else 0) \<and> c = 3
                   then (if side = CHR ''w'' then CHR ''R'' else CHR ''r'')
                 else cell b r c)"
  proof (intro allI impI)
    fix r c assume rc: "in_range r c"
    show "cell (snd (apply_move b m side)) r c =
                (if r = (if side = CHR ''w'' then 7 else 0) \<and> (c = 4 \<or> c = 0) then CHR ''.''
                 else if r = (if side = CHR ''w'' then 7 else 0) \<and> c = 2
                   then (if side = CHR ''w'' then CHR ''K'' else CHR ''k'')
                 else if r = (if side = CHR ''w'' then 7 else 0) \<and> c = 3
                   then (if side = CHR ''w'' then CHR ''R'' else CHR ''r'')
                 else cell b r c)"
      using rc assms
      by (cases "side = CHR ''w''")
        (auto simp add: am castle_queenside_def cell_set_cell wf_board_set_cell in_range_back_rank)
  qed
qed

theorem castling_writes_fixed_squares_witness:
  "wf_board empty_board \<and> ''O-O'' \<in> {''O-O'', ''O-O+'', ''O-O#''} \<and>
   ''O-O-O#'' \<in> {''O-O-O'', ''O-O-O+'', ''O-O-O#''} \<and> in_range 7 6 \<and> in_range 0 3 \<and>
   fst (apply_move empty_board ''O-O'' (CHR ''w'')) \<and>
   cell (snd (apply_move empty_board ''O-O'' (CHR ''w''))) 7 6 = CHR ''K'' \<and>
   fst (apply_move empty_board ''O-O-O#'' (CHR ''b'')) \<and>
   cell (snd (apply_move empty_board ''O-O-O#'' (CHR ''b''))) 0 3 = CHR ''r''"
  using castling_writes_fixed_squares [OF wf_empty_board, of "''O-O''" "CHR ''w''"]
    castling_writes_fixed_squares [OF wf_empty_board, of "''O-O-O#''" "CHR ''b''"]
    wf_empty_board
  by (simp add: in_range_def)

section \<open>Facts about the piece locator\<close>

lemma find_upto_Some_iff:
  "find P [i..j] = Some x \<longleftrightarrow> i \<le> x \<and> x \<le> j \<and> P x \<and> (\<forall>y. i \<le> y \<and> y < x \<longrightarrow> \<not> P y)"
proof (induction i j rule: upto.induct)
  case (1 i j)
  show ?case
  proof (cases "i \<le> j")
    case True
    then have eq: "[i..j] = i # [i + 1..j]" by (simp add: upto_rec1)
    show ?thesis
    proof (cases "P i")
      case Pi: True
      have "i \<le> x \<and> x \<le> j \<and> P x \<and> (\<forall>y. i \<le> y \<and> y < x \<longrightarrow> \<not> P y) \<longleftrightarrow> x = i"
      proof
        assume A: "i \<le> x \<and> x \<le> j \<and> P x \<and> (\<forall>y. i \<le> y \<and> y < x \<longrightarrow> \<not> P y)"
        show "x = i"
        proof (rule ccontr)
          assume "x \<noteq> i"
          then have "i < x" using A by simp
          then have "\<not> P i" using A by simp
          then show False using Pi by simp
        qed
      next
        assume "x = i"
        then show "i \<le> x \<and> x \<le> j \<and> P x \<and> (\<forall>y. i \<le> y \<and> y < x \<longrightarrow> \<not> P y)"
          using Pi True by auto
      qed
      then show ?thesis unfolding eq using Pi by auto
    next
      case nPi: False
      have "(i \<le> x \<and> x \<le> j \<and> P x \<and> (\<forall>y. i \<le> y \<and> y < x \<longrightarrow> \<not> P y)) \<longleftrightarrow>
            (i + 1 \<le> x \<and> x \<le> j \<and> P x \<and> (\<forall>y. i + 1 \<le> y \<and> y < x \<longrightarrow> \<not> P y))"
      proof -
        have a: "\<And>y. i \<le> y \<longleftrightarrow> y = i \<or> i + 1 \<le> y" by auto
        show ?thesis using nPi by (auto simp add: a)
      qed
      then show ?thesis unfolding eq using nPi 1 [OF True] by simp
    qed
  next
    case False
    then show ?thesis by auto
  qed
qed

lemma find_upto_None_iff: "find P [i..j] = None \<longleftrightarrow> (\<forall>y. i \<le> y \<and> y \<le> j \<longrightarrow> \<not> P y)"
  by (auto simp add: find_None_iff)

lemma first_row_upto_Some_iff:
  "first_row f [i..j] = Some (r, c) \<longleftrightarrow>
     i \<le> r \<and> r \<le> j \<and> f r = Some c \<and> (\<forall>y. i \<le> y \<and> y < r \<longrightarrow> f y = None)"
proof (induction i j rule: upto.induct)
  case (1 i j)
  show ?case
  proof (cases "i \<le> j")
    case True
    then have eq: "[i..j] = i # [i + 1..j]" by (simp add: upto_rec1)
    show ?thesis
    proof (cases "f i")
      case (Some c')
      have "i \<le> r \<and> r \<le> j \<and> f r = Some c \<and> (\<forall>y. i \<le> y \<and> y < r \<longrightarrow> f y = None)
              \<longleftrightarrow> r = i \<and> c = c'"
      proof
        assume A: "i \<le> r \<and> r \<le> j \<and> f r = Some c \<and> (\<forall>y. i \<le> y \<and> y < r \<longrightarrow> f y = None)"
        have "r = i"
        proof (rule ccontr)
          assume "r \<noteq> i"
          then have "i < r" using A by simp
          then have "f i = None" using A by simp
          then show False using Some by simp
        qed
        then show "r = i \<and> c = c'" using A Some by simp
      next
        assume "r = i \<and> c = c'"
        then show "i \<le> r \<and> r \<le> j \<and> f r = Some c \<and> (\<forall>y. i \<le> y \<and> y < r \<longrightarrow> f y = None)"
          using Some True by auto
      qed
      then show ?thesis unfolding eq using Some by auto
    next
      case None
      have "(i \<le> r \<and> r \<le> j \<and> f r = Some c \<and> (\<forall>y. i \<le> y \<and> y < r \<longrightarrow> f y = None)) \<longleftrightarrow>
            (i + 1 \<le> r \<and> r \<le> j \<and> f r = Some c \<and> (\<forall>y. i + 1 \<le> y \<and> y < r \<longrightarrow> f y = None))"
      proof -
        have a: "\<And>y. i \<le> y \<longleftrightarrow> y = i \<or> i + 1 \<le> y" by auto
        show ?thesis using None by (auto simp add: a)
      qed
      then show ?thesis unfolding eq using None 1 [OF True] by simp
    qed
  next
    case False
    then show ?thesis by auto
  qed
qed


lemma candidate_iff:
  "candidate b p dr dc rh ch r c \<longleftrightarrow>
     cell b r c = p \<and> (0 \<le> rh \<longrightarrow> r = rh) \<and> (0 \<le> ch \<longrightarrow> c = ch) \<and> reaches b p r c dr dc"
  unfolding candidate_def by auto

lemma find_piece_Some_iff:
  "find_piece b p dr dc rh ch = Some (r, c) \<longleftrightarrow>
     in_range r c \<and> candidate b p dr dc rh ch r c \<and>
     (\<forall>r' c'. in_range r' c' \<and> (r' < r \<or> (r' = r \<and> c' < c)) \<longrightarrow>
        \<not> candidate b p dr dc rh ch r' c')"
  (is "?L \<longleftrightarrow> ?R")
proof
  assume ?L
  then have r: "0 \<le> r" "r \<le> 7"
    and f: "find (candidate b p dr dc rh ch r) [0..7] = Some c"
    and e: "\<And>y. 0 \<le> y \<Longrightarrow> y < r \<Longrightarrow> find (candidate b p dr dc rh ch y) [0..7] = None"
    unfolding find_piece_def first_row_upto_Some_iff by auto
  from f have c: "0 \<le> c" "c \<le> 7" "candidate b p dr dc rh ch r c"
    and ec: "\<And>y. 0 \<le> y \<Longrightarrow> y < c \<Longrightarrow> \<not> candidate b p dr dc rh ch r y"
    unfolding find_upto_Some_iff by auto
  have "\<not> candidate b p dr dc rh ch r' c'"
    if "in_range r' c'" "r' < r \<or> (r' = r \<and> c' < c)" for r' c'
  proof (cases "r' < r")
    case True
    then have "find (candidate b p dr dc rh ch r') [0..7] = None"
      using e that(1) unfolding in_range_def by simp
    then show ?thesis using that(1) unfolding find_upto_None_iff in_range_def by simp
  next
    case False
    then show ?thesis using that ec unfolding in_range_def by auto
  qed
  then show ?R using r c unfolding in_range_def by auto
next
  assume R: ?R
  then have rc: "0 \<le> r" "r \<le> 7" "0 \<le> c" "c \<le> 7" unfolding in_range_def by auto
  have f: "find (candidate b p dr dc rh ch r) [0..7] = Some c"
    unfolding find_upto_Some_iff using R rc unfolding in_range_def by auto
  have e: "find (candidate b p dr dc rh ch y) [0..7] = None" if "0 \<le> y" "y < r" for y
    unfolding find_upto_None_iff using R rc that unfolding in_range_def by auto
  show ?L unfolding find_piece_def first_row_upto_Some_iff using f e rc by auto
qed


section \<open>Claims about the piece locator\<close>



section \<open>Facts about the move interpreter\<close>

lemma king_reach_chebyshev:
  "king_reach r c drow dcol \<longleftrightarrow> max \<bar>r - drow\<bar> \<bar>c - dcol\<bar> \<le> 1"
  unfolding king_reach_def by auto

lemma parse_move_in_range:
  "parse_move m side = Inr mi \<Longrightarrow> in_range (dest_row mi) (dest_col mi)"
  unfolding parse_move_def in_range_def
  by (auto simp add: Let_def split: prod.splits if_splits)

lemma pawn_reach_diagonal:
  "pawn_reach b p r c drow dcol \<Longrightarrow> c \<noteq> dcol \<Longrightarrow> r \<noteq> drow"
  unfolding pawn_reach_def by (auto split: if_splits)

section \<open>Further claims about the move interpreter\<close>

text \<open>
  C7. For every board, token and side, \<open>apply_move\<close> reports failure exactly when the token
  is no castling token and either it is too short to hold a destination, or its destination
  is off the board, or the piece locator finds no source square; and whenever it reports
  failure the board it leaves is the board it was given.
\<close>

theorem apply_move_failure_keeps_board:
  "(\<not> fst (apply_move b m side) \<longleftrightarrow>
      m \<notin> {''O-O'', ''O-O+'', ''O-O#'', ''O-O-O'', ''O-O-O+'', ''O-O-O#''} \<and>
      (parse_move m side = Inl TooShort \<or> parse_move m side = Inl BadDestination \<or>
       (\<exists>mi. parse_move m side = Inr mi \<and>
          find_piece b (piece mi) (dest_row mi) (dest_col mi) (src_row_hint mi) (src_col_hint mi)
            = None))) \<and>
   (\<not> fst (apply_move b m side) \<longrightarrow> snd (apply_move b m side) = b)"
proof -
  have c: "m \<notin> {''O-O'', ''O-O+'', ''O-O#'', ''O-O-O'', ''O-O-O+'', ''O-O-O#''} \<longleftrightarrow>
           \<not> is_kingside m \<and> \<not> is_queenside m"
    unfolding is_kingside_def is_queenside_def by auto
  show ?thesis
  proof (cases "is_kingside m \<or> is_queenside m")
    case True
    then show ?thesis unfolding c apply_move_def by auto
  next
    case False
    show ?thesis
    proof (cases "parse_move m side")
      case (Inl e)
      then show ?thesis using False unfolding c apply_move_def by (cases e) auto
    next
      case (Inr mi)
      then show ?thesis using False unfolding c apply_move_def
        by (cases "find_piece b (piece mi) (dest_row mi) (dest_col mi) (src_row_hint mi)
                     (src_col_hint mi)") auto
    qed
  qed
qed

theorem apply_move_failure_keeps_board_witness:
  "\<not> fst (apply_move empty_board ''e'' (CHR ''w'')) \<and>
   snd (apply_move empty_board ''e'' (CHR ''w'')) = empty_board \<and>
   \<not> fst (apply_move empty_board ''e9'' (CHR ''w'')) \<and>
   snd (apply_move empty_board ''e9'' (CHR ''w'')) = empty_board \<and>
   \<not> fst (apply_move empty_board ''Nf3'' (CHR ''w'')) \<and>
   snd (apply_move empty_board ''Nf3'' (CHR ''w'')) = empty_board"
proof -
  have p1: "parse_move ''e'' (CHR ''w'') = Inl TooShort" by code_simp
  have p2: "parse_move ''e9'' (CHR ''w'') = Inl BadDestination" by code_simp
  have p3: "parse_move ''Nf3'' (CHR ''w'') =
       Inr \<lparr>piece = CHR ''N'', promote_to = CHR 0x00, dest_row = 5, dest_col = 5,
            src_row_hint = - 1, src_col_hint = - 1\<rparr>" by code_simp
  have p4: "find_piece empty_board (CHR ''N'') 5 5 (- 1) (- 1) = None" by code_simp
  show ?thesis
    using apply_move_failure_keeps_board [of empty_board "''e''" "CHR ''w''"]
      apply_move_failure_keeps_board [of empty_board "''e9''" "CHR ''w''"]
      apply_move_failure_keeps_board [of empty_board "''Nf3''" "CHR ''w''"]
      p1 p2 p3 p4
    by simp
qed

text \<open>
  C8. The king test of the piece locator is meant to accept a source square exactly when
  it is one of the 8 neighbours of the destination. The code accepts every square at
  Chebyshev distance at most one, the destination itself included (see
  \<open>king_reach_chebyshev\<close>): with a White king on e1 the token \<^verbatim>\<open>Ke1\<close> is located and applied,
  and it is the move selected from \<^verbatim>\<open>Ke1 Kd1\<close>.
\<close>

theorem king_test_accepts_own_square:
  "king_reach 7 4 7 4 \<and>
   find_piece
     [''........'', ''........'', ''........'', ''........'',
      ''........'', ''........'', ''........'', ''....K...'']
     (CHR ''K'') 7 4 (- 1) (- 1) = Some (7, 4) \<and>
   apply_move
     [''........'', ''........'', ''........'', ''........'',
      ''........'', ''........'', ''........'', ''....K...'']
     ''Ke1'' (CHR ''w'') =
     (True, [''........'', ''........'', ''........'', ''........'',
             ''........'', ''........'', ''........'', ''....K...'']) \<and>
   choose_move ''8/8/8/8/8/8/8/4K3 w - - 0 1'' ''Ke1 Kd1'' 1 = 0"
proof -
  have k1: "king_reach 7 4 7 4" by code_simp
  have k2: "find_piece
     [''........'', ''........'', ''........'', ''........'',
      ''........'', ''........'', ''........'', ''....K...'']
     (CHR ''K'') 7 4 (- 1) (- 1) = Some (7, 4)" by code_simp
  have k3: "apply_move
     [''........'', ''........'', ''........'', ''........'',
      ''........'', ''........'', ''........'', ''....K...'']
     ''Ke1'' (CHR ''w'') =
     (True, [''........'', ''........'', ''........'', ''........'',
             ''........'', ''........'', ''........'', ''....K...''])" by code_simp
  have k4: "apply_move
     [''........'', ''........'', ''........'', ''........'',
      ''........'', ''........'', ''........'', ''....K...'']
     ''Kd1'' (CHR ''w'') =
     (True, [''........'', ''........'', ''........'', ''........'',
             ''........'', ''........'', ''........'', ''...K....''])" by code_simp
  have e1: "evaluate [''........'', ''........'', ''........'', ''........'',
             ''........'', ''........'', ''........'', ''....K...''] = 20000" by code_simp
  have e2: "evaluate [''........'', ''........'', ''........'', ''........'',
             ''........'', ''........'', ''........'', ''...K....''] = 20000" by code_simp
  have p: "parse_fen ''8/8/8/8/8/8/8/4K3 w - - 0 1'' =
     (True, [''........'', ''........'', ''........'', ''........'',
             ''........'', ''........'', ''........'', ''....K...''], CHR ''w'')" by code_simp
  have ml: "move_list ''Ke1 Kd1'' = [''Ke1'', ''Kd1'']" by code_simp
  have "choose_move ''8/8/8/8/8/8/8/4K3 w - - 0 1'' ''Ke1 Kd1'' 1 = 0"
    unfolding choose_move_def p ml by (simp add: k3 k4 e1 e2)
  then show ?thesis using k1 k2 k3 by simp
qed

text \<open>
  C6, as amended. On every 8 by 8 board, when a token that is no castling token parses to a
  pawn move, the locator returns a source on another file than the destination and the
  destination square is empty, \<open>apply_move\<close> succeeds; the source and the destination are
  on different rows; afterwards the source square is empty, the square on the source's row
  and the destination's file is empty, the destination holds the moving pawn when the token
  has no promotion suffix and otherwise the promotion letter in the case of the side to
  move, and every other cell is unchanged.
\<close>

theorem pawn_diagonal_to_empty_square:
  assumes "wf_board b"
    and "m \<notin> {''O-O'', ''O-O+'', ''O-O#'', ''O-O-O'', ''O-O-O+'', ''O-O-O#''}"
    and "parse_move m side = Inr mi"
    and "toupper_c (piece mi) = CHR ''P''"
    and "find_piece b (piece mi) (dest_row mi) (dest_col mi) (src_row_hint mi) (src_col_hint mi)
           = Some (sr, sc)"
    and "sc \<noteq> dest_col mi"
    and "cell b (dest_row mi) (dest_col mi) = CHR ''.''"
  shows "fst (apply_move b m side) \<and> wf_board (snd (apply_move b m side)) \<and>
     in_range sr sc \<and> in_range (dest_row mi) (dest_col mi) \<and> sr \<noteq> dest_row mi \<and>
     (\<forall>r c. in_range r c \<longrightarrow>
        cell (snd (apply_move b m side)) r c =
          (if r = dest_row mi \<and> c = dest_col mi then
             (if promote_to mi = CHR 0x00 then piece mi
              else if side = CHR ''w'' then toupper_c (promote_to mi)
              else tolower_c (promote_to mi))
           else if r = sr \<and> (c = sc \<or> c = dest_col mi) then CHR ''.''
           else cell b r c))"
proof -
  have nc: "\<not> is_kingside m" "\<not> is_queenside m"
    using assms(2) unfolding is_kingside_def is_queenside_def by auto
  have am: "apply_move b m side = (True, perform_move b mi side sr sc)"
    unfolding apply_move_def using nc assms(3,5) by simp
  have d: "in_range (dest_row mi) (dest_col mi)" using assms(3) by (rule parse_move_in_range)
  have cand: "in_range sr sc"
    "candidate b (piece mi) (dest_row mi) (dest_col mi) (src_row_hint mi) (src_col_hint mi) sr sc"
    using assms(5) unfolding find_piece_Some_iff by auto
  have "pawn_reach b (piece mi) sr sc (dest_row mi) (dest_col mi)"
    using cand(2) assms(4) unfolding candidate_iff reaches_def by (simp add: Let_def)
  then have rows: "sr \<noteq> dest_row mi" using assms(6) by (rule pawn_reach_diagonal)
  have ep: "in_range sr (dest_col mi)" using cand(1) d unfolding in_range_def by simp
  have cells: "cell (perform_move b mi side sr sc) r c =
          (if r = dest_row mi \<and> c = dest_col mi then
             (if promote_to mi = CHR 0x00 then piece mi
              else if side = CHR ''w'' then toupper_c (promote_to mi)
              else tolower_c (promote_to mi))
           else if r = sr \<and> (c = sc \<or> c = dest_col mi) then CHR ''.''
           else cell b r c)" if "in_range r c" for r c
    unfolding perform_move_def
    using that assms(1,4,6,7) d cand(1) ep
    by (auto simp add: Let_def cell_set_cell wf_board_set_cell)
  have wf: "wf_board (perform_move b mi side sr sc)"
    unfolding perform_move_def using assms(1) by (simp add: Let_def wf_board_set_cell)
  show ?thesis using am d cand(1) rows cells wf by simp
qed

theorem pawn_diagonal_to_empty_square_witness:
  "wf_board [''........'', ''........'', ''........'', ''...pP...'',
             ''........'', ''........'', ''........'', ''........''] \<and>
   ''exd6'' \<notin> {''O-O'', ''O-O+'', ''O-O#'', ''O-O-O'', ''O-O-O+'', ''O-O-O#''} \<and>
   parse_move ''exd6'' (CHR ''w'') =
     Inr \<lparr>piece = CHR ''P'', promote_to = CHR 0x00, dest_row = 2, dest_col = 3,
          src_row_hint = - 1, src_col_hint = 4\<rparr> \<and>
   toupper_c (CHR ''P'') = CHR ''P'' \<and>
   find_piece [''........'', ''........'', ''........'', ''...pP...'',
               ''........'', ''........'', ''........'', ''........'']
     (CHR ''P'') 2 3 (- 1) 4 = Some (3, 4) \<and>
   cell [''........'', ''........'', ''........'', ''...pP...'',
         ''........'', ''........'', ''........'', ''........''] 2 3 = CHR ''.'' \<and>
   fst (apply_move [''........'', ''........'', ''........'', ''...pP...'',
                    ''........'', ''........'', ''........'', ''........'']
          ''exd6'' (CHR ''w'')) \<and>
   cell (snd (apply_move [''........'', ''........'', ''........'', ''...pP...'',
                          ''........'', ''........'', ''........'', ''........'']
                ''exd6'' (CHR ''w''))) 2 3 = CHR ''P'' \<and>
   cell (snd (apply_move [''........'', ''........'', ''........'', ''...pP...'',
                          ''........'', ''........'', ''........'', ''........'']
                ''exd6'' (CHR ''w''))) 3 4 = CHR ''.'' \<and>
   cell (snd (apply_move [''........'', ''........'', ''........'', ''...pP...'',
                          ''........'', ''........'', ''........'', ''........'']
                ''exd6'' (CHR ''w''))) 3 3 = CHR ''.''"
proof -
  let ?b = "[''........'', ''........'', ''........'', ''...pP...'',
             ''........'', ''........'', ''........'', ''........'']"
  let ?mi = "\<lparr>piece = CHR ''P'', promote_to = CHR 0x00, dest_row = 2, dest_col = 3,
          src_row_hint = - 1, src_col_hint = 4\<rparr>"
  have wf: "wf_board ?b" by (simp add: wf_board_def)
  have nc: "''exd6'' \<notin> {''O-O'', ''O-O+'', ''O-O#'', ''O-O-O'', ''O-O-O+'', ''O-O-O#''}"
    by simp
  have pm: "parse_move ''exd6'' (CHR ''w'') = Inr ?mi" by code_simp
  have up: "toupper_c (piece ?mi) = CHR ''P''" by code_simp
  have fp: "find_piece ?b (piece ?mi) (dest_row ?mi) (dest_col ?mi) (src_row_hint ?mi)
              (src_col_hint ?mi) = Some (3, 4)" by code_simp
  have ne: "(4::int) \<noteq> dest_col ?mi" by simp
  have em: "cell ?b (dest_row ?mi) (dest_col ?mi) = CHR ''.''" by code_simp
  have r: "in_range 2 3" "in_range 3 4" "in_range 3 3" by (simp_all add: in_range_def)
  show ?thesis
    using pawn_diagonal_to_empty_square [OF wf nc pm up fp ne em] wf pm up fp em r
    by simp
qed

text \<open>
  C6 as first stated puts the moving pawn on the destination for every such token. With a
  White pawn on e7 and d8 empty, the token \<^verbatim>\<open>exd8=Q\<close> resolves to source e7 and destination
  d8 on different files, and the destination then holds a queen.
\<close>

theorem pawn_diagonal_promotion_counterexample:
  "parse_move ''exd8=Q'' (CHR ''w'') =
     Inr \<lparr>piece = CHR ''P'', promote_to = CHR ''Q'', dest_row = 0, dest_col = 3,
          src_row_hint = - 1, src_col_hint = 4\<rparr> \<and>
   find_piece [''........'', ''....P...'', ''........'', ''........'',
               ''........'', ''........'', ''........'', ''........'']
     (CHR ''P'') 0 3 (- 1) 4 = Some (1, 4) \<and>
   cell [''........'', ''....P...'', ''........'', ''........'',
         ''........'', ''........'', ''........'', ''........''] 0 3 = CHR ''.'' \<and>
   apply_move [''........'', ''....P...'', ''........'', ''........'',
               ''........'', ''........'', ''........'', ''........'']
     ''exd8=Q'' (CHR ''w'') =
     (True, [''...Q....'', ''........'', ''........'', ''........'',
             ''........'', ''........'', ''........'', ''........'']) \<and>
   cell [''...Q....'', ''........'', ''........'', ''........'',
         ''........'', ''........'', ''........'', ''........''] 0 3 \<noteq> CHR ''P''"
  by code_simp

section \<open>Facts about the position decoder\<close>

lemma split_ranks_nonempty: "split_ranks s \<noteq> []"
  by (induction s) (auto split: list.splits)

lemma triples_from_Nil: "triples_from row col [] = []"
  by (simp add: triples_from_def)

lemma triples_from_Cons:
  "triples_from row col (p # ps) =
     (if p = CHR ''/'' then triples_from (row + 1) 0 ps
      else if is_skip p then triples_from row (col + (ord p - 48)) ps
      else ((row, col), p) # triples_from row (col + 1) ps)"
  using split_ranks_nonempty [of ps]
  by (cases "split_ranks ps") (auto simp add: triples_from_def)

lemma fen_triples_from: "fen_triples s = triples_from 0 0 (placement_field s)"
  using split_ranks_nonempty [of "placement_field s"]
  by (cases "split_ranks (placement_field s)") (auto simp add: triples_from_def fen_triples_def)

lemma fen_placement_field:
  "fen_placement s row col b =
     (fst (fen_placement (placement_field s) row col b), dropWhile (\<lambda>ch. ch \<noteq> CHR '' '') s)"
  by (induction s row col b rule: fen_placement.induct)
     (auto simp add: placement_field_def)


lemma map_of_snoc:
  "map_of (xs @ [(k, v)]) k' =
     (case map_of xs k' of Some w \<Rightarrow> Some w | None \<Rightarrow> (if k' = k then Some v else None))"
  by (simp add: map_add_def split: option.splits)

lemma cell_fen_placement:
  assumes "wf_board b" "in_range r c" "0 \<le> row" "0 \<le> col" "CHR '' '' \<notin> set s"
  shows "cell (fst (fen_placement s row col b)) r c =
     (case map_of (rev (triples_from row col s)) (r, c) of
        None \<Rightarrow> cell b r c | Some ch \<Rightarrow> ch)"
  using assms
proof (induction s row col b rule: fen_placement.induct)
  case (1 row col b)
  then show ?case by (simp add: triples_from_Nil)
next
  case (2 p ps row col b)
  have sp: "p \<noteq> CHR '' ''" "CHR '' '' \<notin> set ps" using 2 by auto
  show ?case
  proof (cases "p = CHR ''/''")
    case True
    then show ?thesis using 2 sp by (simp add: triples_from_Cons)
  next
    case nslash: False
    show ?thesis
    proof (cases "is_skip p")
      case True
      then have "0 \<le> col + (ord p - 48)" using 2 unfolding is_skip_def by simp
      then show ?thesis using 2 sp nslash True
        by (simp add: triples_from_Cons is_skip_def)
    next
      case False
      let ?b' = "if row < 8 \<and> col < 8 then set_cell b row col p else b"
      have wf': "wf_board ?b'" using 2 by (simp add: wf_board_set_cell)
      have c': "cell ?b' r c = (if (r, c) = (row, col) then p else cell b r c)"
      proof (cases "row < 8 \<and> col < 8")
        case True
        then have "in_range row col" using 2 unfolding in_range_def by simp
        then show ?thesis using True 2 by (auto simp add: cell_set_cell)
      next
        case False
        then have "(r, c) \<noteq> (row, col)" using 2 unfolding in_range_def by auto
        then show ?thesis using False by auto
      qed
      have nd: "\<not> (49 \<le> ord p \<and> ord p \<le> 56)" using False unfolding is_skip_def by simp
      have IH: "cell (fst (fen_placement ps row (col + 1) ?b')) r c =
         (case map_of (rev (triples_from row (col + 1) ps)) (r, c) of
            None \<Rightarrow> cell ?b' r c | Some ch \<Rightarrow> ch)"
        using 2(3) [OF sp(1) nslash nd wf' "2.prems"(2,3)] "2.prems"(4) sp(2) by simp
      have step: "fen_placement (p # ps) row col b = fen_placement ps row (col + 1) ?b'"
        using sp nslash nd by auto
      have tr: "triples_from row col (p # ps) = ((row, col), p) # triples_from row (col + 1) ps"
        using nslash False by (simp add: triples_from_Cons)
      have m: "map_of (rev (((row, col), p) # triples_from row (col + 1) ps)) (r, c) =
          (case map_of (rev (triples_from row (col + 1) ps)) (r, c) of
             Some w \<Rightarrow> Some w
           | None \<Rightarrow> (if (r, c) = (row, col) then Some p else None))"
        unfolding rev.simps by (rule map_of_snoc)
      show ?thesis
        unfolding step tr IH c' m
        by (cases "map_of (rev (triples_from row (col + 1) ps)) (r, c)") auto
    qed
  qed
qed

lemma cell_empty_board: "in_range r c \<Longrightarrow> cell empty_board r c = CHR ''.''"
proof -
  assume "in_range r c"
  then have "nat r < 8" "nat c < 8" unfolding in_range_def by auto
  then show ?thesis unfolding cell_def empty_board_def by simp
qed

lemma placement_field_no_space: "CHR '' '' \<notin> set (placement_field s)"
  unfolding placement_field_def by (auto dest: set_takeWhileD)

lemma dropWhile_space_cases:
  "dropWhile (\<lambda>ch. ch \<noteq> CHR '' '') s = [] \<or>
   (\<exists>ps. dropWhile (\<lambda>ch. ch \<noteq> CHR '' '') s = CHR '' '' # ps)"
proof (cases "dropWhile (\<lambda>ch. ch \<noteq> CHR '' '') s")
  case Nil
  then show ?thesis by simp
next
  case (Cons p ps)
  then have "\<not> (hd (dropWhile (\<lambda>ch. ch \<noteq> CHR '' '') s) \<noteq> CHR '' '')"
    using hd_dropWhile [of "\<lambda>ch. ch \<noteq> CHR '' ''" s] by simp
  then show ?thesis using Cons by simp
qed

lemma parse_fen_eq:
  "parse_fen s =
     (True, fst (fen_placement (placement_field s) 0 0 empty_board),
      (case drop 1 (dropWhile (\<lambda>ch. ch \<noteq> CHR '' '') s) of [] \<Rightarrow> CHR 0x00 | p # _ \<Rightarrow> p))"
proof -
  have e: "fen_placement s 0 0 empty_board =
      (fst (fen_placement (placement_field s) 0 0 empty_board),
       dropWhile (\<lambda>ch. ch \<noteq> CHR '' '') s)"
    by (rule fen_placement_field)
  from dropWhile_space_cases [of s] show ?thesis
  proof
    assume n: "dropWhile (\<lambda>ch. ch \<noteq> CHR '' '') s = []"
    show ?thesis unfolding parse_fen_def e n by (simp add: Let_def)
  next
    assume "\<exists>ps. dropWhile (\<lambda>ch. ch \<noteq> CHR '' '') s = CHR '' '' # ps"
    then obtain ps where c: "dropWhile (\<lambda>ch. ch \<noteq> CHR '' '') s = CHR '' '' # ps" ..
    show ?thesis unfolding parse_fen_def e c by (simp add: Let_def split: list.splits)
  qed
qed

lemma map_of_rev_distinct:
  assumes "distinct (map fst xs)"
  shows "map_of (rev xs) k = map_of xs k"
proof (cases "map_of xs k")
  case None
  then have "k \<notin> fst ` set (rev xs)" by (simp add: map_of_eq_None_iff)
  then have "map_of (rev xs) k = None" unfolding map_of_eq_None_iff .
  then show ?thesis using None by simp
next
  case (Some v)
  then have "(k, v) \<in> set (rev xs)" by (auto dest: map_of_SomeD)
  moreover have "distinct (map fst (rev xs))"
    using assms distinct_rev [of "map fst xs"] unfolding rev_map by simp
  ultimately show ?thesis using Some by simp
qed

lemma rank_width_nonneg: "0 \<le> rank_width rk"
  by (induction rk) (auto simp add: is_skip_def)

lemma rank_triples_mem:
  "((r, c), ch) \<in> set (rank_triples row col rk) \<Longrightarrow>
     r = row \<and> col \<le> c \<and> c < col + rank_width rk \<and> ch \<in> set rk \<and> \<not> is_skip ch"
proof (induction rk arbitrary: col)
  case Nil
  then show ?case by simp
next
  case (Cons p ps)
  show ?case
  proof (cases "is_skip p")
    case True
    then have "((r, c), ch) \<in> set (rank_triples row (col + (ord p - 48)) ps)"
      using Cons.prems by simp
    moreover have "1 \<le> ord p - 48" using True unfolding is_skip_def by simp
    ultimately show ?thesis using Cons.IH [of "col + (ord p - 48)"] True by auto
  next
    case False
    then have "((r, c), ch) = ((row, col), p) \<or>
               ((r, c), ch) \<in> set (rank_triples row (col + 1) ps)"
      using Cons.prems by simp
    then show ?thesis
    proof
      assume "((r, c), ch) = ((row, col), p)"
      then show ?thesis using False rank_width_nonneg [of ps] by simp
    next
      assume "((r, c), ch) \<in> set (rank_triples row (col + 1) ps)"
      from Cons.IH [OF this] show ?thesis using False by auto
    qed
  qed
qed

lemma rank_triples_distinct: "distinct (map fst (rank_triples row col rk))"
proof (induction rk arbitrary: col)
  case Nil
  then show ?case by simp
next
  case (Cons p ps)
  have "(row, col) \<notin> fst ` set (rank_triples row (col + 1) ps)"
  proof
    assume "(row, col) \<in> fst ` set (rank_triples row (col + 1) ps)"
    then obtain ch where "((row, col), ch) \<in> set (rank_triples row (col + 1) ps)" by auto
    from rank_triples_mem [OF this] show False by simp
  qed
  then show ?case using Cons by simp
qed

lemma ranks_triples_mem:
  "((r, c), ch) \<in> set (ranks_triples row rks) \<Longrightarrow>
     row \<le> r \<and> r < row + int (length rks) \<and>
     (\<exists>rk \<in> set rks. ((r, c), ch) \<in> set (rank_triples r 0 rk))"
proof (induction rks arbitrary: row)
  case Nil
  then show ?case by simp
next
  case (Cons rk rks)
  then have "((r, c), ch) \<in> set (rank_triples row 0 rk) \<or>
             ((r, c), ch) \<in> set (ranks_triples (row + 1) rks)" by simp
  then show ?case
  proof
    assume a: "((r, c), ch) \<in> set (rank_triples row 0 rk)"
    then have "r = row" using rank_triples_mem by blast
    then show ?thesis using a by auto
  next
    assume "((r, c), ch) \<in> set (ranks_triples (row + 1) rks)"
    from Cons.IH [OF this] show ?thesis by auto
  qed
qed

lemma ranks_triples_distinct: "distinct (map fst (ranks_triples row rks))"
proof (induction rks arbitrary: row)
  case Nil
  then show ?case by simp
next
  case (Cons rk rks)
  have "fst ` set (rank_triples row 0 rk) \<inter> fst ` set (ranks_triples (row + 1) rks) = {}"
  proof (rule ccontr)
    assume "fst ` set (rank_triples row 0 rk) \<inter> fst ` set (ranks_triples (row + 1) rks) \<noteq> {}"
    then obtain r c ch ch' where a: "((r, c), ch) \<in> set (rank_triples row 0 rk)"
      and b: "((r, c), ch') \<in> set (ranks_triples (row + 1) rks)" by fastforce
    from rank_triples_mem [OF a] ranks_triples_mem [OF b] show False by simp
  qed
  then show ?case using Cons rank_triples_distinct [of row 0 rk] by simp
qed

lemma fen_triples_distinct: "distinct (map fst (fen_triples s))"
  unfolding fen_triples_def by (rule ranks_triples_distinct)

lemma valid_fen_triples:
  assumes "valid_placement s" "((r, c), ch) \<in> set (fen_triples s)"
  shows "in_range r c \<and> decode_piece ch \<noteq> None"
proof -
  let ?ranks = "split_ranks (placement_field s)"
  have len: "length ?ranks = 8"
    and all: "\<And>rk. rk \<in> set ?ranks \<Longrightarrow>
        rank_width rk = 8 \<and> (\<forall>x \<in> set rk. is_skip x \<or> decode_piece x \<noteq> None)"
    using assms(1) unfolding valid_placement_def by (auto simp add: Let_def list_all_iff)
  from ranks_triples_mem [OF assms(2) [unfolded fen_triples_def]]
  obtain rk where r: "0 \<le> r" "r < 8" and rk: "rk \<in> set ?ranks"
    and m: "((r, c), ch) \<in> set (rank_triples r 0 rk)"
    using len by auto
  from rank_triples_mem [OF m] all [OF rk] r show ?thesis
    unfolding in_range_def by auto
qed

lemma set_scan_board:
  "set (scan_board b) = {((r, c), cell b r c) | r c. in_range r c \<and> cell b r c \<noteq> CHR ''.''}"
proof -
  have "x \<in> set (scan_board b) \<longleftrightarrow>
        (\<exists>r c. x = ((r, c), cell b r c) \<and> in_range r c \<and> cell b r c \<noteq> CHR ''.'')" for x
    unfolding scan_board_def in_range_def by (auto simp add: image_iff)
  then show ?thesis by blast
qed

lemma decode_piece_dot: "decode_piece (CHR ''.'') = None"
  by (simp add: decode_piece_def)


lemma cell_parse_fen:
  assumes "in_range r c"
  shows "cell (fst (snd (parse_fen s))) r c =
     (case map_of (fen_triples s) (r, c) of None \<Rightarrow> CHR ''.'' | Some ch \<Rightarrow> ch)"
proof -
  have "cell (fst (snd (parse_fen s))) r c =
     (case map_of (rev (fen_triples s)) (r, c) of None \<Rightarrow> CHR ''.'' | Some ch \<Rightarrow> ch)"
    using cell_fen_placement [OF wf_empty_board assms, of 0 0 "placement_field s"]
      placement_field_no_space [of s] cell_empty_board [OF assms]
    by (simp add: parse_fen_eq fen_triples_from split: option.splits)
  then show ?thesis by (simp only: map_of_rev_distinct [OF fen_triples_distinct])
qed

section \<open>Claims about the position decoder\<close>



text \<open>
  C4. For every string whose placement field is valid (8 ranks of width 8 made of the
  digits 1 to 8 and the twelve piece letters), re-scanning the board that \<open>parse_fen\<close>
  produces gives exactly the (square, character) pairs of the direct enumeration of the
  placement field: each enumerated piece is on the board, on its own square, with its
  letter (hence its kind, and its colour by the letter's case), and every square the
  enumeration does not name is empty.
\<close>

theorem parse_fen_matches_enumeration:
  assumes "valid_placement s"
  shows "set (scan_board (fst (snd (parse_fen s)))) = set (fen_triples s) \<and>
     distinct (map fst (fen_triples s)) \<and>
     (\<forall>r c ch. ((r, c), ch) \<in> set (fen_triples s) \<longrightarrow>
        in_range r c \<and> decode_piece ch \<noteq> None \<and> cell (fst (snd (parse_fen s))) r c = ch) \<and>
     (\<forall>r c. in_range r c \<and> (r, c) \<notin> fst ` set (fen_triples s) \<longrightarrow>
        cell (fst (snd (parse_fen s))) r c = CHR ''.'')"
proof -
  let ?b = "fst (snd (parse_fen s))"
  let ?ts = "fen_triples s"
  note d = fen_triples_distinct [of s]
  have mem: "in_range r c \<and> decode_piece ch \<noteq> None \<and> cell ?b r c = ch"
    if "((r, c), ch) \<in> set ?ts" for r c ch
  proof -
    have v: "in_range r c" "decode_piece ch \<noteq> None"
      using valid_fen_triples [OF assms that] by simp_all
    have "map_of ?ts (r, c) = Some ch" using d that by simp
    then show ?thesis using v cell_parse_fen [OF v(1), of s] by simp
  qed
  have emp: "cell ?b r c = CHR ''.''"
    if "in_range r c" "(r, c) \<notin> fst ` set ?ts" for r c
  proof -
    have "map_of ?ts (r, c) = None" using that(2) by (simp add: map_of_eq_None_iff)
    then show ?thesis using cell_parse_fen [OF that(1), of s] by simp
  qed
  have "x \<in> set (scan_board ?b) \<longleftrightarrow> x \<in> set ?ts" for x
  proof
    assume "x \<in> set (scan_board ?b)"
    then obtain r c where x: "x = ((r, c), cell ?b r c)" and rc: "in_range r c"
      and ne: "cell ?b r c \<noteq> CHR ''.''"
      unfolding set_scan_board by auto
    have "(r, c) \<in> fst ` set ?ts" using emp [OF rc] ne by auto
    then obtain ch where m: "((r, c), ch) \<in> set ?ts" by auto
    then show "x \<in> set ?ts" using mem [OF m] x by simp
  next
    assume a: "x \<in> set ?ts"
    obtain r c ch where x: "x = ((r, c), ch)" by (metis surj_pair)
    from mem [OF a [unfolded x]] have "in_range r c" "cell ?b r c = ch" "ch \<noteq> CHR ''.''"
      using decode_piece_dot by auto
    then show "x \<in> set (scan_board ?b)" unfolding set_scan_board x by auto
  qed
  then have "set (scan_board ?b) = set ?ts" by blast
  then show ?thesis using d mem emp by blast
qed

theorem parse_fen_matches_enumeration_witness:
  "valid_placement ''rnbqkbnr/pp1ppppp/8/2p5/4P3/8/PPPP1PPP/RNBQKBNR w KQkq c6 0 2'' \<and>
   set (scan_board
         (fst (snd (parse_fen ''rnbqkbnr/pp1ppppp/8/2p5/4P3/8/PPPP1PPP/RNBQKBNR w KQkq c6 0 2''))))
     = set (fen_triples ''rnbqkbnr/pp1ppppp/8/2p5/4P3/8/PPPP1PPP/RNBQKBNR w KQkq c6 0 2'') \<and>
   ((4, 4), CHR ''P'')
     \<in> set (fen_triples ''rnbqkbnr/pp1ppppp/8/2p5/4P3/8/PPPP1PPP/RNBQKBNR w KQkq c6 0 2'') \<and>
   in_range 4 4 \<and> decode_piece (CHR ''P'') \<noteq> None \<and>
   cell (fst (snd (parse_fen ''rnbqkbnr/pp1ppppp/8/2p5/4P3/8/PPPP1PPP/RNBQKBNR w KQkq c6 0 2'')))
     4 4 = CHR ''P''"
proof -
  have v: "valid_placement ''rnbqkbnr/pp1ppppp/8/2p5/4P3/8/PPPP1PPP/RNBQKBNR w KQkq c6 0 2''"
    by code_simp
  have m: "((4, 4), CHR ''P'')
     \<in> set (fen_triples ''rnbqkbnr/pp1ppppp/8/2p5/4P3/8/PPPP1PPP/RNBQKBNR w KQkq c6 0 2'')"
    by code_simp
  show ?thesis
    using parse_fen_matches_enumeration [OF v] v m by blast
qed

section \<open>Facts about the move selector\<close>

lemma spec_square_score_bound:
  assumes "in_range r c"
  shows "\<bar>spec_square_score b r c\<bar> \<le> 20000"
proof -
  have cb: "0 \<le> centre_bonus r c" "centre_bonus r c \<le> 3"
    using centre_bonus_shape [OF assms] by simp_all
  have r: "0 \<le> r" "r \<le> 7" using assms unfolding in_range_def by simp_all
  show ?thesis
  proof (cases "decode_piece (cell b r c)")
    case None
    then show ?thesis by (simp add: spec_square_score_def)
  next
    case (Some kc)
    obtain k side where kc: "kc = (k, side)" by (cases kc)
    show ?thesis
      using cb r unfolding spec_square_score_def Some kc
      by (cases k; cases side) simp_all
  qed
qed

lemma evaluate_bound: "\<bar>evaluate b\<bar> \<le> 1280000"
proof -
  have inner: "\<bar>\<Sum>col = 0..7. spec_square_score b row col\<bar> \<le> 160000"
    if "row \<in> {0..7}" for row
  proof -
    have "\<bar>\<Sum>col = 0..7. spec_square_score b row col\<bar>
          \<le> (\<Sum>col = 0..7. \<bar>spec_square_score b row col\<bar>)"
      by (rule sum_abs)
    also have "\<dots> \<le> (\<Sum>col = (0::int)..7. 20000)"
      using that by (intro sum_mono spec_square_score_bound) (simp add: in_range_def)
    also have "\<dots> = 160000" by simp
    finally show ?thesis .
  qed
  have "\<bar>evaluate b\<bar> \<le> (\<Sum>row = 0..7. \<bar>\<Sum>col = 0..7. spec_square_score b row col\<bar>)"
    unfolding evaluate_refines_spec spec_evaluate_def by (rule sum_abs)
  also have "\<dots> \<le> (\<Sum>row = (0::int)..7. 160000)"
    by (intro sum_mono inner)
  also have "\<dots> = 1280000" by simp
  finally show ?thesis .
qed

lemma choose_loop_Cons:
  "choose_loop board side (m # ms) i best_idx best_score =
     (if fst (apply_move board m side) \<and>
         better side (evaluate (snd (apply_move board m side))) best_score
      then choose_loop board side ms (i + 1) i (evaluate (snd (apply_move board m side)))
      else choose_loop board side ms (i + 1) best_idx best_score)"
  by (cases "apply_move board m side") (simp add: better_def Let_def)

lemma choose_loop_spec:
  fixes board side
  defines "ok \<equiv> \<lambda>m. fst (apply_move board m side)"
    and "sc \<equiv> \<lambda>m. evaluate (snd (apply_move board m side))"
  shows "(choose_loop board side ms i bi bs = bi \<and>
            (\<forall>j<length ms. ok (ms ! j) \<longrightarrow> \<not> better side (sc (ms ! j)) bs)) \<or>
         (\<exists>j<length ms. choose_loop board side ms i bi bs = i + j \<and> ok (ms ! j) \<and>
            better side (sc (ms ! j)) bs \<and>
            (\<forall>j'<length ms. ok (ms ! j') \<longrightarrow> \<not> better side (sc (ms ! j')) (sc (ms ! j))) \<and>
            (\<forall>j'<j. ok (ms ! j') \<longrightarrow> better side (sc (ms ! j)) (sc (ms ! j'))))"
proof (induction ms arbitrary: i bi bs)
  case Nil
  then show ?case by simp
next
  case (Cons m ms)
  show ?case
  proof (cases "ok m \<and> better side (sc m) bs")
    case False
    then have eq: "choose_loop board side (m # ms) i bi bs = choose_loop board side ms (i + 1) bi bs"
      unfolding ok_def sc_def by (auto simp del: choose_loop.simps simp add: choose_loop_Cons)
    from Cons.IH [of "i + 1" bi bs] show ?thesis
    proof
      assume a: "choose_loop board side ms (i + 1) bi bs = bi \<and>
            (\<forall>j<length ms. ok (ms ! j) \<longrightarrow> \<not> better side (sc (ms ! j)) bs)"
      have "\<forall>j<length (m # ms). ok ((m # ms) ! j) \<longrightarrow> \<not> better side (sc ((m # ms) ! j)) bs"
        using a False by (auto simp add: nth_Cons split: nat.splits)
      then show ?thesis using a eq by simp
    next
      assume "\<exists>j<length ms. choose_loop board side ms (i + 1) bi bs = i + 1 + j \<and> ok (ms ! j) \<and>
            better side (sc (ms ! j)) bs \<and>
            (\<forall>j'<length ms. ok (ms ! j') \<longrightarrow> \<not> better side (sc (ms ! j')) (sc (ms ! j))) \<and>
            (\<forall>j'<j. ok (ms ! j') \<longrightarrow> better side (sc (ms ! j)) (sc (ms ! j')))"
      then obtain j where j: "j < length ms"
        and k: "choose_loop board side ms (i + 1) bi bs = i + 1 + j"
        and okj: "ok (ms ! j)" and bj: "better side (sc (ms ! j)) bs"
        and best: "\<forall>j'<length ms. ok (ms ! j') \<longrightarrow> \<not> better side (sc (ms ! j')) (sc (ms ! j))"
        and first: "\<forall>j'<j. ok (ms ! j') \<longrightarrow> better side (sc (ms ! j)) (sc (ms ! j'))"
        by blast
      have m1: "ok m \<longrightarrow> \<not> better side (sc m) (sc (ms ! j))"
        using False bj unfolding better_def by (auto split: if_splits)
      have m2: "ok m \<longrightarrow> better side (sc (ms ! j)) (sc m)"
        using False bj unfolding better_def by (auto split: if_splits)
      have b': "\<forall>j'<length (m # ms). ok ((m # ms) ! j') \<longrightarrow>
                  \<not> better side (sc ((m # ms) ! j')) (sc ((m # ms) ! Suc j))"
        using best m1 by (auto simp add: nth_Cons split: nat.splits)
      have f': "\<forall>j'<Suc j. ok ((m # ms) ! j') \<longrightarrow>
                  better side (sc ((m # ms) ! Suc j)) (sc ((m # ms) ! j'))"
        using first m2 by (auto simp add: nth_Cons split: nat.splits)
      have "Suc j < length (m # ms) \<and> choose_loop board side (m # ms) i bi bs = i + Suc j \<and>
            ok ((m # ms) ! Suc j) \<and> better side (sc ((m # ms) ! Suc j)) bs"
        using j k okj bj eq by simp
      then show ?thesis using b' f' by blast
    qed
  next
    case True
    then have eq: "choose_loop board side (m # ms) i bi bs =
                     choose_loop board side ms (i + 1) i (sc m)"
      unfolding ok_def sc_def by (auto simp del: choose_loop.simps simp add: choose_loop_Cons)
    from Cons.IH [of "i + 1" i "sc m"] show ?thesis
    proof
      assume a: "choose_loop board side ms (i + 1) i (sc m) = i \<and>
            (\<forall>j<length ms. ok (ms ! j) \<longrightarrow> \<not> better side (sc (ms ! j)) (sc m))"
      have irr: "\<not> better side (sc m) (sc m)" unfolding better_def by simp
      have b': "\<forall>j'<length (m # ms). ok ((m # ms) ! j') \<longrightarrow>
                  \<not> better side (sc ((m # ms) ! j')) (sc ((m # ms) ! 0))"
        using a irr by (auto simp add: nth_Cons split: nat.splits)
      have "0 < length (m # ms) \<and> choose_loop board side (m # ms) i bi bs = i + 0 \<and>
            ok ((m # ms) ! 0) \<and> better side (sc ((m # ms) ! 0)) bs \<and>
            (\<forall>j'<0. ok ((m # ms) ! j') \<longrightarrow> better side (sc ((m # ms) ! 0)) (sc ((m # ms) ! j')))"
        using a eq True by simp
      then show ?thesis using b' by blast
    next
      assume "\<exists>j<length ms. choose_loop board side ms (i + 1) i (sc m) = i + 1 + j \<and> ok (ms ! j) \<and>
            better side (sc (ms ! j)) (sc m) \<and>
            (\<forall>j'<length ms. ok (ms ! j') \<longrightarrow> \<not> better side (sc (ms ! j')) (sc (ms ! j))) \<and>
            (\<forall>j'<j. ok (ms ! j') \<longrightarrow> better side (sc (ms ! j)) (sc (ms ! j')))"
      then obtain j where j: "j < length ms"
        and k: "choose_loop board side ms (i + 1) i (sc m) = i + 1 + j"
        and okj: "ok (ms ! j)" and bj: "better side (sc (ms ! j)) (sc m)"
        and best: "\<forall>j'<length ms. ok (ms ! j') \<longrightarrow> \<not> better side (sc (ms ! j')) (sc (ms ! j))"
        and first: "\<forall>j'<j. ok (ms ! j') \<longrightarrow> better side (sc (ms ! j)) (sc (ms ! j'))"
        by blast
      have tr: "better side (sc (ms ! j)) bs"
        using True bj unfolding better_def by (auto split: if_splits)
      have m1: "\<not> better side (sc m) (sc (ms ! j))"
        using bj unfolding better_def by (auto split: if_splits)
      have b': "\<forall>j'<length (m # ms). ok ((m # ms) ! j') \<longrightarrow>
                  \<not> better side (sc ((m # ms) ! j')) (sc ((m # ms) ! Suc j))"
        using best m1 by (auto simp add: nth_Cons split: nat.splits)
      have f': "\<forall>j'<Suc j. ok ((m # ms) ! j') \<longrightarrow>
                  better side (sc ((m # ms) ! Suc j)) (sc ((m # ms) ! j'))"
        using first bj by (auto simp add: nth_Cons split: nat.splits)
      have "Suc j < length (m # ms) \<and> choose_loop board side (m # ms) i bi bs = i + Suc j \<and>
            ok ((m # ms) ! Suc j) \<and> better side (sc ((m # ms) ! Suc j)) bs"
        using j k okj tr eq by simp
      then show ?thesis using b' f' by blast
    qed
  qed
qed

lemma beats_sentinel:
  "better side (evaluate b) (if side = CHR ''w'' then - 9999999 else 9999999)"
  using evaluate_bound [of b] unfolding better_def by auto

lemma choose_move_eq:
  assumes "parse_fen fen = (okf, board, side)"
  shows "choose_move fen moves timeout =
     choose_loop board side (move_list moves) 0 0
       (if side = CHR ''w'' then - 9999999 else 9999999)"
  unfolding choose_move_def assms by (cases "move_list moves") (simp_all add: Let_def)

lemma choose_move_cases:
  assumes "parse_fen fen = (okf, board, side)"
  shows "(choose_move fen moves timeout = 0 \<and>
            (\<forall>j<length (move_list moves). \<not> fst (apply_move board (move_list moves ! j) side))) \<or>
         (choose_move fen moves timeout < length (move_list moves) \<and>
            fst (apply_move board (move_list moves ! choose_move fen moves timeout) side) \<and>
            (\<forall>i<length (move_list moves). fst (apply_move board (move_list moves ! i) side) \<longrightarrow>
               \<not> better side (evaluate (snd (apply_move board (move_list moves ! i) side)))
                   (evaluate (snd (apply_move board
                      (move_list moves ! choose_move fen moves timeout) side)))) \<and>
            (\<forall>i<choose_move fen moves timeout.
               fst (apply_move board (move_list moves ! i) side) \<longrightarrow>
               better side
                 (evaluate (snd (apply_move board
                    (move_list moves ! choose_move fen moves timeout) side)))
                 (evaluate (snd (apply_move board (move_list moves ! i) side)))))"
  using choose_loop_spec [of board side "move_list moves" 0 0
      "if side = CHR ''w'' then - 9999999 else 9999999"]
proof
  assume "choose_loop board side (move_list moves) 0 0
            (if side = CHR ''w'' then - 9999999 else 9999999) = 0 \<and>
          (\<forall>j<length (move_list moves). fst (apply_move board (move_list moves ! j) side) \<longrightarrow>
             \<not> better side (evaluate (snd (apply_move board (move_list moves ! j) side)))
                 (if side = CHR ''w'' then - 9999999 else 9999999))"
  then show ?thesis
    using beats_sentinel unfolding choose_move_eq [OF assms] by blast
next
  assume "\<exists>j<length (move_list moves).
       choose_loop board side (move_list moves) 0 0
         (if side = CHR ''w'' then - 9999999 else 9999999) = 0 + j \<and>
       fst (apply_move board (move_list moves ! j) side) \<and>
       better side (evaluate (snd (apply_move board (move_list moves ! j) side)))
         (if side = CHR ''w'' then - 9999999 else 9999999) \<and>
       (\<forall>j'<length (move_list moves). fst (apply_move board (move_list moves ! j') side) \<longrightarrow>
          \<not> better side (evaluate (snd (apply_move board (move_list moves ! j') side)))
              (evaluate (snd (apply_move board (move_list moves ! j) side)))) \<and>
       (\<forall>j'<j. fst (apply_move board (move_list moves ! j') side) \<longrightarrow>
          better side (evaluate (snd (apply_move board (move_list moves ! j) side)))
            (evaluate (snd (apply_move board (move_list moves ! j') side))))"
  then show ?thesis
    unfolding choose_move_eq [OF assms] by auto
qed

section \<open>Claims about the move selector\<close>

text \<open>
  C1. Let \<open>parse_fen\<close> decode the position and let \<open>move_list\<close> be the tokens of the move
  string. When at least one token applies, \<open>choose_move\<close> returns the index of a token that
  applies and whose evaluation is the best of all tokens that apply (the maximum for side
  \<^verbatim>\<open>'w'\<close>, the minimum otherwise), and every applicable token before that index evaluates
  strictly worse. So of two applicable tokens with distinct scores the strictly better one
  is preferred, and among the applicable tokens that tie on the best score the earliest
  index is returned.
\<close>

theorem choose_move_selects_first_best:
  assumes "parse_fen fen = (okf, board, side)"
    and "j < length (move_list moves)"
    and "fst (apply_move board (move_list moves ! j) side)"
  shows "choose_move fen moves timeout < length (move_list moves) \<and>
     fst (apply_move board (move_list moves ! choose_move fen moves timeout) side) \<and>
     (\<forall>i<length (move_list moves). fst (apply_move board (move_list moves ! i) side) \<longrightarrow>
        (if side = CHR ''w''
         then evaluate (snd (apply_move board (move_list moves ! i) side))
              \<le> evaluate (snd (apply_move board
                    (move_list moves ! choose_move fen moves timeout) side))
         else evaluate (snd (apply_move board
                    (move_list moves ! choose_move fen moves timeout) side))
              \<le> evaluate (snd (apply_move board (move_list moves ! i) side)))) \<and>
     (\<forall>i<choose_move fen moves timeout.
        fst (apply_move board (move_list moves ! i) side) \<longrightarrow>
        (if side = CHR ''w''
         then evaluate (snd (apply_move board (move_list moves ! i) side))
              < evaluate (snd (apply_move board
                    (move_list moves ! choose_move fen moves timeout) side))
         else evaluate (snd (apply_move board
                    (move_list moves ! choose_move fen moves timeout) side))
              < evaluate (snd (apply_move board (move_list moves ! i) side))))"
  using choose_move_cases [OF assms(1), of moves timeout] assms(2,3)
  unfolding better_def by (auto simp add: not_less)

theorem choose_move_selects_first_best_witness:
  "parse_fen ''8/8/8/8/8/8/P6P/8 w - - 0 1'' =
     (True, [''........'', ''........'', ''........'', ''........'',
             ''........'', ''........'', ''P......P'', ''........''], CHR ''w'') \<and>
   move_list ''a3 xx a4 h4'' = [''a3'', ''xx'', ''a4'', ''h4''] \<and>
   \<not> fst (apply_move [''........'', ''........'', ''........'', ''........'',
                       ''........'', ''........'', ''P......P'', ''........'']
             ''xx'' (CHR ''w'')) \<and>
   evaluate (snd (apply_move [''........'', ''........'', ''........'', ''........'',
                              ''........'', ''........'', ''P......P'', ''........'']
                    ''a3'' (CHR ''w''))) = 215 \<and>
   evaluate (snd (apply_move [''........'', ''........'', ''........'', ''........'',
                              ''........'', ''........'', ''P......P'', ''........'']
                    ''a4'' (CHR ''w''))) = 220 \<and>
   evaluate (snd (apply_move [''........'', ''........'', ''........'', ''........'',
                              ''........'', ''........'', ''P......P'', ''........'']
                    ''h4'' (CHR ''w''))) = 220 \<and>
   choose_move ''8/8/8/8/8/8/P6P/8 w - - 0 1'' ''a3 xx a4 h4'' 1 = 2 \<and>
   (0::nat) < length (move_list ''a3 xx a4 h4'') \<and>
   fst (apply_move [''........'', ''........'', ''........'', ''........'',
                    ''........'', ''........'', ''P......P'', ''........'']
          (move_list ''a3 xx a4 h4'' ! 0) (CHR ''w'')) \<and>
   choose_move ''8/8/8/8/8/8/P6P/8 w - - 0 1'' ''a3 xx a4 h4'' 1
     < length (move_list ''a3 xx a4 h4'') \<and>
   fst (apply_move [''........'', ''........'', ''........'', ''........'',
                    ''........'', ''........'', ''P......P'', ''........'']
          (move_list ''a3 xx a4 h4'' !
             choose_move ''8/8/8/8/8/8/P6P/8 w - - 0 1'' ''a3 xx a4 h4'' 1) (CHR ''w''))"
proof -
  let ?b = "[''........'', ''........'', ''........'', ''........'',
             ''........'', ''........'', ''P......P'', ''........'']"
  have p: "parse_fen ''8/8/8/8/8/8/P6P/8 w - - 0 1'' = (True, ?b, CHR ''w'')" by code_simp
  have ml: "move_list ''a3 xx a4 h4'' = [''a3'', ''xx'', ''a4'', ''h4'']" by code_simp
  have a1: "apply_move ?b ''a3'' (CHR ''w'') =
      (True, [''........'', ''........'', ''........'', ''........'',
              ''........'', ''P.......'', ''.......P'', ''........''])" by code_simp
  have a2: "apply_move ?b ''xx'' (CHR ''w'') = (False, ?b)" by code_simp
  have a3: "apply_move ?b ''a4'' (CHR ''w'') =
      (True, [''........'', ''........'', ''........'', ''........'',
              ''P.......'', ''........'', ''.......P'', ''........''])" by code_simp
  have a4: "apply_move ?b ''h4'' (CHR ''w'') =
      (True, [''........'', ''........'', ''........'', ''........'',
              ''.......P'', ''........'', ''P.......'', ''........''])" by code_simp
  have e1: "evaluate [''........'', ''........'', ''........'', ''........'',
              ''........'', ''P.......'', ''.......P'', ''........''] = 215" by code_simp
  have e3: "evaluate [''........'', ''........'', ''........'', ''........'',
              ''P.......'', ''........'', ''.......P'', ''........''] = 220" by code_simp
  have e4: "evaluate [''........'', ''........'', ''........'', ''........'',
              ''.......P'', ''........'', ''P.......'', ''........''] = 220" by code_simp
  have k: "choose_move ''8/8/8/8/8/8/P6P/8 w - - 0 1'' ''a3 xx a4 h4'' 1 = 2"
    unfolding choose_move_def p ml by (simp add: a1 a2 a3 a4 e1 e3 e4)
  have j: "(0::nat) < length (move_list ''a3 xx a4 h4'')" unfolding ml by simp
  have ok: "fst (apply_move ?b (move_list ''a3 xx a4 h4'' ! 0) (CHR ''w''))"
    unfolding ml by (simp add: a1)
  note c = choose_move_selects_first_best [OF p j ok, of 1]
  have facts: "\<not> fst (apply_move ?b ''xx'' (CHR ''w'')) \<and>
      evaluate (snd (apply_move ?b ''a3'' (CHR ''w''))) = 215 \<and>
      evaluate (snd (apply_move ?b ''a4'' (CHR ''w''))) = 220 \<and>
      evaluate (snd (apply_move ?b ''h4'' (CHR ''w''))) = 220"
    by (simp add: a1 a2 a3 a4 e1 e3 e4)
  show ?thesis
    using p ml facts k j ok c [THEN conjunct1] c [THEN conjunct2, THEN conjunct1]
    by (intro conjI) blast+
qed

text \<open>
  C2. With the decoded position and the token list as above: an empty list gives index 0;
  when every token fails to apply, the result is 0; when some token applies, the result is
  the index of a token that applies, so a failing token is never selected. The reason is
  the last part: the evaluation of every board that \<open>apply_move\<close> returns lies strictly
  between the two sentinels \<open>- 9999999\<close> and \<open>9999999\<close>.
\<close>

theorem choose_move_skips_failing_tokens:
  assumes "parse_fen fen = (okf, board, side)"
  shows "(move_list moves = [] \<longrightarrow> choose_move fen moves timeout = 0) \<and>
     ((\<forall>i<length (move_list moves). \<not> fst (apply_move board (move_list moves ! i) side)) \<longrightarrow>
        choose_move fen moves timeout = 0) \<and>
     ((\<exists>i<length (move_list moves). fst (apply_move board (move_list moves ! i) side)) \<longrightarrow>
        choose_move fen moves timeout < length (move_list moves) \<and>
        fst (apply_move board (move_list moves ! choose_move fen moves timeout) side)) \<and>
     (\<forall>m. fst (apply_move board m side) \<longrightarrow>
        - 9999999 < evaluate (snd (apply_move board m side)) \<and>
        evaluate (snd (apply_move board m side)) < 9999999)"
proof -
  have s: "\<forall>m. - 9999999 < evaluate (snd (apply_move board m side)) \<and>
        evaluate (snd (apply_move board m side)) < 9999999"
  proof
    fix m
    show "- 9999999 < evaluate (snd (apply_move board m side)) \<and>
        evaluate (snd (apply_move board m side)) < 9999999"
      using evaluate_bound [of "snd (apply_move board m side)"] by auto
  qed
  have e: "move_list moves = [] \<longrightarrow> choose_move fen moves timeout = 0"
    unfolding choose_move_eq [OF assms] by simp
  show ?thesis
    using choose_move_cases [OF assms, of moves timeout] s e by blast
qed

theorem choose_move_skips_failing_tokens_witness:
  "parse_fen ''8/p6p/8/8/8/8/8/8 b - - 0 1'' =
     (True, [''........'', ''p......p'', ''........'', ''........'',
             ''........'', ''........'', ''........'', ''........''], CHR ''b'') \<and>
   move_list ''xx h6 a5'' = [''xx'', ''h6'', ''a5''] \<and>
   move_list ''xx Nf3'' = [''xx'', ''Nf3''] \<and>
   move_list '' '' = [] \<and>
   choose_move ''8/p6p/8/8/8/8/8/8 b - - 0 1'' ''xx h6 a5'' 1 = 2 \<and>
   choose_move ''8/p6p/8/8/8/8/8/8 b - - 0 1'' ''xx Nf3'' 1 = 0 \<and>
   choose_move ''8/p6p/8/8/8/8/8/8 b - - 0 1'' '' '' 1 = 0 \<and>
   fst (apply_move [''........'', ''p......p'', ''........'', ''........'',
                    ''........'', ''........'', ''........'', ''........'']
          (move_list ''xx h6 a5'' ! choose_move ''8/p6p/8/8/8/8/8/8 b - - 0 1'' ''xx h6 a5'' 1)
          (CHR ''b''))"
proof -
  let ?b = "[''........'', ''p......p'', ''........'', ''........'',
             ''........'', ''........'', ''........'', ''........'']"
  let ?fen = "''8/p6p/8/8/8/8/8/8 b - - 0 1''"
  have p: "parse_fen ?fen = (True, ?b, CHR ''b'')" by code_simp
  have ml1: "move_list ''xx h6 a5'' = [''xx'', ''h6'', ''a5'']" by code_simp
  have ml2: "move_list ''xx Nf3'' = [''xx'', ''Nf3'']" by code_simp
  have ml3: "move_list '' '' = []" by code_simp
  have a1: "apply_move ?b ''xx'' (CHR ''b'') = (False, ?b)" by code_simp
  have a2: "apply_move ?b ''h6'' (CHR ''b'') =
      (True, [''........'', ''p.......'', ''.......p'', ''........'',
              ''........'', ''........'', ''........'', ''........''])" by code_simp
  have a3: "apply_move ?b ''a5'' (CHR ''b'') =
      (True, [''........'', ''.......p'', ''........'', ''p.......'',
              ''........'', ''........'', ''........'', ''........''])" by code_simp
  have a4: "apply_move ?b ''Nf3'' (CHR ''b'') = (False, ?b)" by code_simp
  have e2: "evaluate [''........'', ''p.......'', ''.......p'', ''........'',
              ''........'', ''........'', ''........'', ''........''] = - 215" by code_simp
  have e3: "evaluate [''........'', ''.......p'', ''........'', ''p.......'',
              ''........'', ''........'', ''........'', ''........''] = - 220" by code_simp
  have ex: "\<exists>i<length (move_list ''xx h6 a5''). fst (apply_move ?b (move_list ''xx h6 a5'' ! i) (CHR ''b''))"
    unfolding ml1 by (rule exI [of _ 1]) (simp add: a2)
  have none: "\<forall>i<length (move_list ''xx Nf3''). \<not> fst (apply_move ?b (move_list ''xx Nf3'' ! i) (CHR ''b''))"
    unfolding ml2 by (simp add: a1 a4 nth_Cons less_Suc_eq split: nat.splits)
  note c1 = choose_move_skips_failing_tokens [OF p, of "''xx h6 a5''" 1]
  note c2 = choose_move_skips_failing_tokens [OF p, of "''xx Nf3''" 1]
  note c3 = choose_move_skips_failing_tokens [OF p, of "'' ''" 1]
  have r1: "fst (apply_move ?b (move_list ''xx h6 a5'' ! choose_move ?fen ''xx h6 a5'' 1) (CHR ''b''))"
    using c1 ex by blast
  have r2: "choose_move ?fen ''xx Nf3'' 1 = 0" using c2 none by blast
  have r3: "choose_move ?fen '' '' 1 = 0" using c3 ml3 by blast
  have k: "choose_move ?fen ''xx h6 a5'' 1 = 2"
    unfolding choose_move_def p ml1 by (simp add: a1 a2 a3 e2 e3)
  show ?thesis
    using p ml1 ml2 ml3 k r1 r2 r3 by (intro conjI) blast+
qed

end
